theory Spec2Isabelle
  imports Complex_Main "HOL-Library.List_Lexorder" "HOL-Library.Log_Nat"
begin

section \<open>Text: Python \<open>str\<close> as a list of code points\<close>

text \<open>
  The analyzer works on Python 3 \<open>str\<close> values, whose elements are Unicode code points
  (the heading pattern itself contains U+2019). A string is therefore a list of code
  points, \<open>ord\<close> of each character; \<open>U\<close> embeds an ASCII literal.
\<close>

type_synonym ustr = "nat list"

definition U :: "string \<Rightarrow> ustr" where
  "U s = map of_char s"

definition in_range :: "nat \<Rightarrow> nat \<Rightarrow> nat \<Rightarrow> bool" where
  "in_range lo hi c \<longleftrightarrow> lo \<le> c \<and> c \<le> hi"

text \<open>
  \<open>str.isspace\<close> and the pattern escape \<open>\s\<close> both test CPython's
  \<open>Py_UNICODE_ISSPACE\<close>: the ASCII controls 9-13 and 28-31, the space, and the
  Unicode white space characters listed here.
\<close>

definition isspace :: "nat \<Rightarrow> bool" where
  "isspace c \<longleftrightarrow> in_range 9 13 c \<or> in_range 28 32 c \<or> c = 133 \<or> c = 160
     \<or> c = 5760 \<or> in_range 8192 8202 c \<or> c = 8232 \<or> c = 8233 \<or> c = 8239
     \<or> c = 8287 \<or> c = 12288"

text \<open>
  The Unicode character database and the operating system are not part of the
  repository. The two tables that the patterns consult beyond ASCII (alphanumeric,
  decimal digit) and the path separator of \<open>os.path.join\<close> are a parameter; on
  ASCII the classes are written out.
\<close>

record platform =
  uni_isalnum :: "nat \<Rightarrow> bool"
  uni_isdecimal :: "nat \<Rightarrow> bool"
  os_sep :: nat

definition isalnum :: "platform \<Rightarrow> nat \<Rightarrow> bool" where
  "isalnum u c \<longleftrightarrow>
     (if c < 128 then in_range 48 57 c \<or> in_range 65 90 c \<or> in_range 97 122 c
      else uni_isalnum u c)"

definition isdecimal :: "platform \<Rightarrow> nat \<Rightarrow> bool" where
  "isdecimal u c \<longleftrightarrow> (if c < 128 then in_range 48 57 c else uni_isdecimal u c)"

text \<open>The pattern escape \<open>\w\<close>: alphanumeric or the underscore.\<close>

definition isword :: "platform \<Rightarrow> nat \<Rightarrow> bool" where
  "isword u c \<longleftrightarrow> isalnum u c \<or> c = 95"

text \<open>\<open>s.strip()\<close>, \<open>sep.join(parts)\<close>, \<open>s.split(sep)\<close> for a one-character
  separator, \<open>sub in s\<close> and \<open>str(n)\<close> for a non-negative integer.\<close>

definition strip :: "ustr \<Rightarrow> ustr" where
  "strip s = rev (dropWhile isspace (rev (dropWhile isspace s)))"

fun join :: "ustr \<Rightarrow> ustr list \<Rightarrow> ustr" where
  "join sep [] = []"
| "join sep [x] = x"
| "join sep (x # y # ys) = x @ sep @ join sep (y # ys)"

fun split_on :: "nat \<Rightarrow> ustr \<Rightarrow> ustr list" where
  "split_on d [] = [[]]"
| "split_on d (c # cs) =
     (if c = d then [] # split_on d cs
      else (case split_on d cs of [] \<Rightarrow> [[c]] | w # ws \<Rightarrow> (c # w) # ws))"

fun starts_with :: "ustr \<Rightarrow> ustr \<Rightarrow> bool" where
  "starts_with [] s = True"
| "starts_with (a # as) [] = False"
| "starts_with (a # as) (c # cs) = (a = c \<and> starts_with as cs)"

fun contains :: "ustr \<Rightarrow> ustr \<Rightarrow> bool" where
  "contains sub [] = (sub = [])"
| "contains sub (c # cs) = (starts_with sub (c # cs) \<or> contains sub cs)"

function str_of_nat :: "nat \<Rightarrow> ustr" where
  "str_of_nat n = (if n < 10 then [48 + n] else str_of_nat (n div 10) @ [48 + n mod 10])"
  by pat_completeness auto
termination
  by (relation "measure id") auto

section \<open>Exceptions\<close>

text \<open>
  The two exceptions that the analyzed functions raise by themselves: a dictionary
  lookup with a missing key and the lookup of a missing attribute of a module. A
  function that can raise returns a sum, the exception on the left; a loop whose body can
  raise stops at the first exception.
\<close>

datatype error = KeyError ustr | AttributeError ustr

fun fold_err :: "('s \<Rightarrow> 'a \<Rightarrow> error + 's) \<Rightarrow> 's \<Rightarrow> 'a list \<Rightarrow> error + 's" where
  "fold_err f s [] = Inr s"
| "fold_err f s (x # xs) = (case f s x of Inl e \<Rightarrow> Inl e | Inr s' \<Rightarrow> fold_err f s' xs)"

section \<open>Python floats: binary64 arithmetic\<close>

text \<open>
  A Python \<open>float\<close> is an IEEE 754 binary64 number, and \<open>pymupdf.Rect\<close> keeps its four
  coordinates as floats. A finite float is the rational it denotes; the coordinates that
  the text layer and the OCR table give are finite. Every arithmetic operation gives the
  exact result rounded to the nearest binary64 number, ties going to the even
  significand: for \<open>2^e \<le> |x| < 2^(e+1)\<close> the spacing is \<open>2^(e-52)\<close>, and below
  \<open>2^-1022\<close> it stays \<open>2^-1074\<close> (the subnormal numbers). Of the operations below only
  the difference of two corners can reach the magnitude \<open>2^1024\<close>, where the float is
  the infinity of that sign: the rounded number stands for it, and the comparisons of
  line 547 with the finite sizes of a page come out the same.
\<close>

definition round_half_even :: "rat \<Rightarrow> int" where
  "round_half_even x =
     (let f = \<lfloor>x\<rfloor>; d = x - of_int f
      in if d < 1 / 2 then f else if 1 / 2 < d then f + 1 else if even f then f else f + 1)"

text \<open>The exponent \<open>e\<close> with \<open>2^e \<le> |x| < 2^(e+1)\<close>, for \<open>x\<close> other than 0.\<close>

definition float_exponent :: "rat \<Rightarrow> int" where
  "float_exponent x =
     (if 1 \<le> \<bar>x\<bar> then bitlen \<lfloor>\<bar>x\<bar>\<rfloor> - 1 else - bitlen (\<lceil>1 / \<bar>x\<bar>\<rceil> - 1))"

definition binary64 :: "rat \<Rightarrow> rat" where
  "binary64 x =
     (if x = 0 then 0
      else let ulp = 2 powi (max (float_exponent x) (- 1022) - 52)
           in of_int (round_half_even (x / ulp)) * ulp)"

text \<open>\<open>a + b\<close>, \<open>a - b\<close> and \<open>a / b\<close> where at least one operand is a float and the
  other a float or an integer that a float holds exactly.\<close>

definition fadd :: "rat \<Rightarrow> rat \<Rightarrow> rat" where
  "fadd a b = binary64 (a + b)"

definition fsub :: "rat \<Rightarrow> rat \<Rightarrow> rat" where
  "fsub a b = binary64 (a - b)"

definition fdiv :: "rat \<Rightarrow> rat \<Rightarrow> rat" where
  "fdiv a b = binary64 (a / b)"

section \<open>Regular expressions: the backtracking matcher of \<open>re\<close>\<close>

text \<open>
  The three compiled patterns are built from character classes, concatenation,
  alternation, groups, anchors and repetitions of a character class (greedy, or lazy as
  in \<open>+?\<close>). A matcher state is the position reached, the text still to read and the
  groups captured so far. \<open>rmatch\<close> lists the states a pattern can reach from a state
  in the order in which the backtracking engine tries them, so the head of the list is
  the match \<open>re\<close> reports: a lazy repetition offers its shortest run first, a greedy one
  its longest.
\<close>

datatype rx =
    Cls "nat \<Rightarrow> bool"
  | Cat rx rx
  | Alt rx rx
  | Rep bool nat "nat option" "nat \<Rightarrow> bool"
  | Grp nat rx
  | Bol
  | Eol

type_synonym mstate = "nat \<times> ustr \<times> (nat \<times> ustr) list"

fun rep_ends :: "(nat \<Rightarrow> bool) \<Rightarrow> nat \<Rightarrow> nat option \<Rightarrow> nat \<Rightarrow> ustr \<Rightarrow> (nat \<times> ustr) list" where
  "rep_ends p lo hi k [] = (if lo \<le> k then [(k, [])] else [])"
| "rep_ends p lo hi k (c # cs) =
     (if lo \<le> k then [(k, c # cs)] else []) @
     (if p c \<and> (case hi of None \<Rightarrow> True | Some h \<Rightarrow> k < h)
      then rep_ends p lo hi (Suc k) cs else [])"

primrec rmatch :: "rx \<Rightarrow> mstate \<Rightarrow> mstate list" where
  "rmatch (Cls p) st =
     (case fst (snd st) of [] \<Rightarrow> []
      | c # cs \<Rightarrow> if p c then [(Suc (fst st), cs, snd (snd st))] else [])"
| "rmatch (Cat a b) st = concat (map (rmatch b) (rmatch a st))"
| "rmatch (Alt a b) st = rmatch a st @ rmatch b st"
| "rmatch (Rep greedy lo hi p) st =
     (let ks = rep_ends p lo hi 0 (fst (snd st))
      in map (\<lambda>(k, rest). (fst st + k, rest, snd (snd st))) (if greedy then rev ks else ks))"
| "rmatch (Grp n a) st =
     map (\<lambda>st'. (fst st', fst (snd st'),
                   (n, take (fst st' - fst st) (fst (snd st))) # snd (snd st')))
         (rmatch a st)"
| "rmatch Bol st = (if fst st = 0 then [st] else [])"
| "rmatch Eol st = (if fst (snd st) = [] \<or> fst (snd st) = [10] then [st] else [])"

text \<open>\<open>pattern.match(s)\<close>: the first state reached from the start of \<open>s\<close>, if any.
  \<open>m_end\<close> is \<open>m.end()\<close>, \<open>m_rest\<close> is \<open>s[m.end():]\<close> and \<open>m_group m n\<close> is
  \<open>m.group(n)\<close> for a group that took part in the match.\<close>

definition re_match :: "rx \<Rightarrow> ustr \<Rightarrow> mstate option" where
  "re_match r s = (case rmatch r (0, s, []) of [] \<Rightarrow> None | st # _ \<Rightarrow> Some st)"

definition m_end :: "mstate \<Rightarrow> nat" where
  "m_end m = fst m"

definition m_rest :: "mstate \<Rightarrow> ustr" where
  "m_rest m = fst (snd m)"

definition m_group :: "mstate \<Rightarrow> nat \<Rightarrow> ustr" where
  "m_group m n = (case map_of (snd (snd m)) n of None \<Rightarrow> [] | Some g \<Rightarrow> g)"

text \<open>
  \<open>pattern.finditer(s)\<close>, giving \<open>group(0)\<close> of each match: the leftmost match from
  the current position, then on from its end. None of the patterns below matches the
  empty string; were a match empty, the scan moves on by one character.
\<close>

function finditer_from :: "rx \<Rightarrow> nat \<Rightarrow> ustr \<Rightarrow> ustr list" where
  "finditer_from r pos s =
     (case rmatch r (pos, s, []) of
        m # _ \<Rightarrow>
          (let n = m_end m - pos
           in take n s # (if s = [] then [] else finditer_from r (pos + max n 1) (drop (max n 1) s)))
      | [] \<Rightarrow> (case s of [] \<Rightarrow> [] | _ # cs \<Rightarrow> finditer_from r (Suc pos) cs))"
  by pat_completeness auto
termination
  by (relation "measure (\<lambda>(r, pos, s). length s)") auto

definition re_finditer :: "rx \<Rightarrow> ustr \<Rightarrow> ustr list" where
  "re_finditer r s = finditer_from r 0 s"

text \<open>\<open>pattern.search(s)\<close> used as a truth value.\<close>

definition re_search :: "rx \<Rightarrow> ustr \<Rightarrow> bool" where
  "re_search r s \<longleftrightarrow> re_finditer r s \<noteq> []"

section \<open>The compiled patterns (lines 44 to 48)\<close>

text \<open>
  \<^verbatim>\<open>HEADING_CLASS_RE = ^([A-Z0-9][A-Z0-9\s\-',]+?)\s+([A-Z][a-z]{1,3}\.)\<close> where the
  quote character of the source's class is U+2019 (code point 8217), the right single
  quotation mark, not the ASCII apostrophe (code point 39).
\<close>

definition heading_first :: "nat \<Rightarrow> bool" where
  "heading_first c \<longleftrightarrow> in_range 65 90 c \<or> in_range 48 57 c"

definition heading_run :: "nat \<Rightarrow> bool" where
  "heading_run c \<longleftrightarrow> in_range 65 90 c \<or> in_range 48 57 c \<or> isspace c
     \<or> c = 45 \<or> c = 8217 \<or> c = 44"

definition class_tag_rx :: rx where
  "class_tag_rx =
     Grp 2 (Cat (Cls (in_range 65 90))
           (Cat (Rep True 1 (Some 3) (in_range 97 122)) (Cls (\<lambda>c. c = 46))))"

definition HEADING_CLASS_RE :: rx where
  "HEADING_CLASS_RE =
     Cat Bol
      (Cat (Grp 1 (Cat (Cls heading_first) (Rep False 1 None heading_run)))
      (Cat (Rep True 1 None isspace) class_tag_rx))"

text \<open>\<^verbatim>\<open>BIBLIO_RE = ([A-Z][A-Za-z\s]+?\s\d{4}|[A-Z][A-Za-z\s]+?\s\d{1,2}C)\<close>\<close>

definition biblio_run :: "nat \<Rightarrow> bool" where
  "biblio_run c \<longleftrightarrow> in_range 65 90 c \<or> in_range 97 122 c \<or> isspace c"

definition BIBLIO_RE :: "platform \<Rightarrow> rx" where
  "BIBLIO_RE u =
     Grp 1 (Alt
       (Cat (Cls (in_range 65 90)) (Cat (Rep False 1 None biblio_run)
         (Cat (Cls isspace) (Rep True 4 (Some 4) (isdecimal u)))))
       (Cat (Cls (in_range 65 90)) (Cat (Rep False 1 None biblio_run)
         (Cat (Cls isspace) (Cat (Rep True 1 (Some 2) (isdecimal u)) (Cls (\<lambda>c. c = 67)))))))"

text \<open>\<^verbatim>\<open>POTENTIAL_SYMBOL_RE_OCR = ^[^\s\w.,;:'"()\[\]?!]{1,5}$\<close>: the excluded
  punctuation is \<open>. , ; : ' " ( ) [ ] ? !\<close>.\<close>

definition ocr_excluded_punct :: "nat list" where
  "ocr_excluded_punct = [46, 44, 59, 58, 39, 34, 40, 41, 91, 93, 63, 33]"

definition ocr_symbol_char :: "platform \<Rightarrow> nat \<Rightarrow> bool" where
  "ocr_symbol_char u c \<longleftrightarrow> \<not> (isspace c \<or> isword u c \<or> c \<in> set ocr_excluded_punct)"

definition POTENTIAL_SYMBOL_RE_OCR :: "platform \<Rightarrow> rx" where
  "POTENTIAL_SYMBOL_RE_OCR u = Cat Bol (Cat (Rep True 1 (Some 5) (ocr_symbol_char u)) Eol)"

text \<open>\<^verbatim>\<open>COMMON_PUNCTUATION = ['.', ',', ';', ':', '(', ')', "'", '"', '[', ']', '!', '?', '-', '/']\<close>\<close>

definition COMMON_PUNCTUATION :: "ustr list" where
  "COMMON_PUNCTUATION =
     [[46], [44], [59], [58], [40], [41], [39], [34], [91], [93], [33], [63], [45], [47]]"

section \<open>Entries and the entry segmenter\<close>

type_synonym bbox = "rat \<times> rat \<times> rat \<times> rat"

datatype extraction = Ocr | Direct

record sigil_meta =
  image_path :: ustr
  parent_entry_heading :: ustr
  sigil_page_number :: nat
  source_text :: ustr
  bounding_box_pdf_coords :: bbox
  extraction_method :: extraction

text \<open>
  The entry under construction is the dictionary with the key \<open>description_parts\<close>;
  finalizing it joins the parts into \<open>description\<close>, deletes \<open>description_parts\<close> and
  replaces \<open>references_raw\<close> by the sorted list of the distinct citations.
\<close>

record open_entry =
  o_heading :: ustr
  o_class :: ustr
  o_sigils_metadata :: "sigil_meta list"
  description_parts :: "ustr list"
  o_page_number :: nat

record entry =
  heading :: ustr
  entry_class :: ustr
  sigils_metadata :: "sigil_meta list"
  description :: ustr
  references_raw :: "ustr list"
  page_number :: nat

definition extract_references :: "platform \<Rightarrow> ustr \<Rightarrow> ustr list" where
  "extract_references u d = sort (remdups (map strip (re_finditer (BIBLIO_RE u) d)))"

definition finalize :: "platform \<Rightarrow> open_entry \<Rightarrow> entry" where
  "finalize u c =
     (let d = strip (join (U '' '') (description_parts c))
      in \<lparr>heading = o_heading c, entry_class = o_class c,
          sigils_metadata = o_sigils_metadata c, description = d,
          references_raw = extract_references u d, page_number = o_page_number c\<rparr>)"

definition close_current :: "platform \<Rightarrow> entry list \<Rightarrow> open_entry option \<Rightarrow> entry list" where
  "close_current u es cur = (case cur of None \<Rightarrow> es | Some c \<Rightarrow> es @ [finalize u c])"

text \<open>
  The body both strategies run on each non-empty stripped line (lines 477 to 488 and
  528 to 540): a heading match closes the open entry and opens a new one, whose first
  description part is the rest of the line when that is not empty; any other line is
  appended to the open entry, or dropped when there is none.
\<close>

definition segment_line ::
  "platform \<Rightarrow> nat \<Rightarrow> ustr \<Rightarrow> entry list \<times> open_entry option \<Rightarrow> entry list \<times> open_entry option" where
  "segment_line u pg line_text st =
     (case re_match HEADING_CLASS_RE line_text of
        Some m \<Rightarrow>
          (let remaining = strip (m_rest m)
           in (close_current u (fst st) (snd st),
               Some \<lparr>o_heading = strip (m_group m 1), o_class = strip (m_group m 2),
                     o_sigils_metadata = [],
                     description_parts = (if remaining \<noteq> [] then [remaining] else []),
                     o_page_number = pg\<rparr>))
      | None \<Rightarrow>
          (case snd st of
             Some c \<Rightarrow> (fst st, Some (c\<lparr>description_parts := description_parts c @ [line_text]\<rparr>))
           | None \<Rightarrow> st))"

section \<open>The sigil image store (lines 401 to 412)\<close>

text \<open>
  What a scan changes outside the entries: the sigil counter, the image files written
  (in the order of writing) and the messages logged.
\<close>

datatype log_msg = ErrorSavingSigil ustr | OcrError nat | WarningDbImage ustr | ScanError error

record scan_state =
  sigil_counter :: nat
  saved_files :: "ustr list"
  log :: "log_msg list"

text \<open>
  The page renderer is an external collaborator. \<open>get_pixmap\<close> gives, for a clip box,
  the pixmap rendered at zoom 4, or nothing when the call raises; a pixmap has a width,
  a height and a \<open>save\<close> that either writes the file or raises (\<open>False\<close>).
  \<open>ocr_data\<close> is the table the OCR engine returns for the page, or nothing when the
  engine raises.
\<close>

record pixmap =
  pix_width :: nat
  pix_height :: nat
  pix_save :: "ustr \<Rightarrow> bool"

datatype cell = NaN | Txt ustr

record ocr_row =
  block_num :: int
  line_num :: int
  conf :: rat
  row_text :: cell
  row_left :: int
  row_top :: int
  row_width :: int
  row_height :: int

record fitz_page =
  number :: nat
  get_pixmap :: "bbox \<Rightarrow> pixmap option"
  ocr_data :: "ocr_row list option"

definition OUTPUT_IMAGE_DIR :: ustr where
  "OUTPUT_IMAGE_DIR = U ''extracted_sigil_images''"

text \<open>\<^verbatim>\<open>re.sub(r'[^\w\-_\. ]', '_', entry_heading[:30])\<close>\<close>

definition clean_heading :: "platform \<Rightarrow> ustr \<Rightarrow> ustr" where
  "clean_heading u h =
     map (\<lambda>c. if isword u c \<or> c = 45 \<or> c = 95 \<or> c = 46 \<or> c = 32 then c else 95) (take 30 h)"

definition img_filename :: "platform \<Rightarrow> ustr \<Rightarrow> nat \<Rightarrow> nat \<Rightarrow> ustr" where
  "img_filename u h page_num counter =
     U ''sigil_'' @ clean_heading u h @ U ''_p'' @ str_of_nat page_num
       @ U ''_id'' @ str_of_nat counter @ U ''.png''"

definition img_path_of :: "platform \<Rightarrow> ustr \<Rightarrow> nat \<Rightarrow> nat \<Rightarrow> ustr" where
  "img_path_of u h page_num counter =
     OUTPUT_IMAGE_DIR @ [os_sep u] @ img_filename u h page_num counter"

definition save_sigil_image ::
  "platform \<Rightarrow> fitz_page \<Rightarrow> bbox \<Rightarrow> ustr \<Rightarrow> nat \<Rightarrow> scan_state \<Rightarrow> ustr option \<times> scan_state" where
  "save_sigil_image u fp sigil_bbox entry_heading page_num st =
     (let st1 = st\<lparr>sigil_counter := sigil_counter st + 1\<rparr>;
          img_path = img_path_of u entry_heading page_num (sigil_counter st1);
          failed = st1\<lparr>log := log st1 @ [ErrorSavingSigil entry_heading]\<rparr>
      in case get_pixmap fp sigil_bbox of
           None \<Rightarrow> (None, failed)
         | Some pix \<Rightarrow>
             if pix_width pix = 0 \<or> pix_height pix = 0 then (None, st1)
             else if pix_save pix img_path
               then (Some img_path, st1\<lparr>saved_files := saved_files st1 @ [img_path]\<rparr>)
               else (None, failed))"

section \<open>Visual annotations\<close>

datatype element_type = Heading | TextBlock | BiblioRef | PotentialSymbol | SavedSigil

record visual_element =
  rect :: bbox
  elem_type :: element_type
  text_snippet :: ustr
  elem_size :: "(int \<times> int) option"

text \<open>Lines 561 to 564: keep the first annotation of each \<open>rect\<close> tuple.\<close>

fun unique_by_rect :: "bbox set \<Rightarrow> visual_element list \<Rightarrow> visual_element list" where
  "unique_by_rect seen [] = []"
| "unique_by_rect seen (ve # ves) =
     (if rect ve \<in> seen then unique_by_rect seen ves
      else ve # unique_by_rect (insert (rect ve) seen) ves)"

section \<open>The vector strategy (lines 515 to 565)\<close>

text \<open>
  The text layer is an external collaborator: a page gives its characters, the text
  extracted from it (or nothing), its line objects, its words, its width, height and
  1-based page number. A character or word is a dictionary with the keys \<open>text\<close>,
  \<open>x0\<close>, \<open>top\<close>, \<open>x1\<close>, \<open>bottom\<close>. The objects of \<open>page.lines\<close> are the straight
  lines drawn on the page (rules, underlines, table borders): such an object has the
  four coordinate keys and no key \<open>text\<close>.
\<close>

record char_info =
  c_text :: ustr
  c_x0 :: rat
  c_top :: rat
  c_x1 :: rat
  c_bottom :: rat

record line_obj =
  l_x0 :: rat
  l_top :: rat
  l_x1 :: rat
  l_bottom :: rat

record plumber_page =
  chars :: "char_info list"
  extract_text :: "ustr option"
  page_lines :: "line_obj list"
  extract_words :: "char_info list"
  page_width :: rat
  page_height :: rat
  plumber_page_number :: nat

definition box_of :: "char_info \<Rightarrow> bbox" where
  "box_of ci = (c_x0 ci, c_top ci, c_x1 ci, c_bottom ci)"

text \<open>\<open>pymupdf.Rect(x0, y0, x1, y1)\<close> converts each argument with \<open>float()\<close>; its
  \<open>width\<close> is \<open>max(0, x1 - x0)\<close> and its \<open>height\<close> is \<open>max(0, y1 - y0)\<close>.\<close>

record Rect =
  rx0 :: rat
  ry0 :: rat
  rx1 :: rat
  ry1 :: rat

definition pymupdf_Rect :: "rat \<Rightarrow> rat \<Rightarrow> rat \<Rightarrow> rat \<Rightarrow> Rect" where
  "pymupdf_Rect a b c d = \<lparr>rx0 = binary64 a, ry0 = binary64 b, rx1 = binary64 c, ry1 = binary64 d\<rparr>"

definition rect_width :: "Rect \<Rightarrow> rat" where
  "rect_width r = max 0 (fsub (rx1 r) (rx0 r))"

definition rect_height :: "Rect \<Rightarrow> rat" where
  "rect_height r = max 0 (fsub (ry1 r) (ry0 r))"

definition rect_tuple :: "Rect \<Rightarrow> bbox" where
  "rect_tuple r = (rx0 r, ry0 r, rx1 r, ry1 r)"

text \<open>Line 519 treats a missing text like the empty one.\<close>

definition the_text :: "ustr option \<Rightarrow> ustr" where
  "the_text t = (case t of None \<Rightarrow> [] | Some x \<Rightarrow> x)"

text \<open>
  Lines 524 to 526 look for the box of the first line object whose text contains the
  line. The test reads \<open>p_line['text']\<close>, a key that a line object does not have: the
  first line object the loop meets raises \<open>KeyError\<close>, and the search ends without a
  box only on a page with no line objects.
\<close>

definition find_line_bbox :: "line_obj list \<Rightarrow> ustr \<Rightarrow> error + bbox option" where
  "find_line_bbox ps line_text =
     (case ps of [] \<Rightarrow> Inr None | p_line # _ \<Rightarrow> Inl (KeyError (U ''text'')))"

type_synonym seg_state = "entry list \<times> visual_element list \<times> open_entry option"

definition plumber_line_step ::
  "platform \<Rightarrow> plumber_page \<Rightarrow> seg_state \<Rightarrow> ustr \<Rightarrow> error + seg_state" where
  "plumber_line_step u pp st line_text_raw =
     (case st of (entries_data, visual_elements, current_entry) \<Rightarrow>
      let line_text = strip line_text_raw in
      if line_text = [] then Inr st
      else
        (case find_line_bbox (page_lines pp) line_text of
           Inl e \<Rightarrow> Inl e
         | Inr line_bbox \<Rightarrow>
             let ves1 = (case line_bbox of None \<Rightarrow> visual_elements
                         | Some b \<Rightarrow> visual_elements @
                             [\<lparr>rect = b, elem_type = TextBlock, text_snippet = take 30 line_text,
                               elem_size = None\<rparr>]);
                 seg = segment_line u (plumber_page_number pp) line_text
                         (entries_data, current_entry);
                 ves2 = (case (re_match HEADING_CLASS_RE line_text, line_bbox) of
                           (Some m, Some b) \<Rightarrow> ves1 @
                             [\<lparr>rect = b, elem_type = Heading, text_snippet = strip (m_group m 1),
                               elem_size = None\<rparr>]
                         | _ \<Rightarrow> ves1)
             in Inr (fst seg, ves2, snd seg)))"

text \<open>Line 543: \<open>str.isalnum\<close> and \<open>str.isspace\<close> hold of a non-empty string all of
  whose characters are in the class.\<close>

definition str_isalnum :: "platform \<Rightarrow> ustr \<Rightarrow> bool" where
  "str_isalnum u t \<longleftrightarrow> t \<noteq> [] \<and> list_all (isalnum u) t"

definition str_isspace :: "ustr \<Rightarrow> bool" where
  "str_isspace t \<longleftrightarrow> t \<noteq> [] \<and> list_all isspace t"

definition vector_candidate :: "platform \<Rightarrow> ustr \<Rightarrow> bool" where
  "vector_candidate u char_text \<longleftrightarrow>
     length char_text = 1 \<and> \<not> str_isalnum u char_text
     \<and> char_text \<notin> set COMMON_PUNCTUATION \<and> \<not> str_isspace char_text"

text \<open>Lines 545 and 546: the rectangle of the character, then the rectangle whose
  corners are one unit further out, each sum and difference computed on floats.\<close>

definition padded_bbox_of :: "char_info \<Rightarrow> Rect" where
  "padded_bbox_of ci =
     (let sigil_bbox = pymupdf_Rect (c_x0 ci) (c_top ci) (c_x1 ci) (c_bottom ci);
          padding = 1
      in pymupdf_Rect (fsub (rx0 sigil_bbox) padding) (fsub (ry0 sigil_bbox) padding)
                      (fadd (rx1 sigil_bbox) padding) (fadd (ry1 sigil_bbox) padding))"

text \<open>Line 547, the condition of the \<open>continue\<close>. Comparing two numbers is exact.\<close>

definition bbox_rejected :: "plumber_page \<Rightarrow> Rect \<Rightarrow> bool" where
  "bbox_rejected pp padded_bbox \<longleftrightarrow>
     rx0 padded_bbox < 0 \<or> ry0 padded_bbox < 0
     \<or> rx1 padded_bbox > page_width pp \<or> ry1 padded_bbox > page_height pp
     \<or> rect_width padded_bbox > fdiv (page_width pp) 2 \<or> rect_height padded_bbox > 50"

type_synonym glyph_state = "open_entry option \<times> visual_element list \<times> scan_state"

definition plumber_char_step ::
  "platform \<Rightarrow> plumber_page \<Rightarrow> fitz_page \<Rightarrow> glyph_state \<Rightarrow> char_info \<Rightarrow> glyph_state" where
  "plumber_char_step u pp fp gs char_info =
     (case gs of (current_entry, visual_elements, st) \<Rightarrow>
      let char_text = c_text char_info in
      if vector_candidate u char_text then
        (case current_entry of
           None \<Rightarrow> gs
         | Some cur \<Rightarrow>
             let padded_bbox = padded_bbox_of char_info in
             if bbox_rejected pp padded_bbox then gs
             else
               (case save_sigil_image u fp (rect_tuple padded_bbox) (o_heading cur)
                       (plumber_page_number pp) st of
                  (Some img_path, st') \<Rightarrow>
                    (Some (cur\<lparr>o_sigils_metadata := o_sigils_metadata cur @
                       [\<lparr>image_path = img_path, parent_entry_heading = o_heading cur,
                         sigil_page_number = plumber_page_number pp, source_text = char_text,
                         bounding_box_pdf_coords = rect_tuple padded_bbox,
                         extraction_method = Direct\<rparr>]\<rparr>),
                     visual_elements @
                       [\<lparr>rect = box_of char_info, elem_type = SavedSigil,
                         text_snippet = char_text, elem_size = None\<rparr>],
                     st')
                | (None, st') \<Rightarrow>
                    (current_entry,
                     visual_elements @
                       [\<lparr>rect = box_of char_info, elem_type = PotentialSymbol,
                         text_snippet = char_text, elem_size = None\<rparr>],
                     st')))
      else gs)"

definition biblio_word_elements :: "platform \<Rightarrow> char_info list \<Rightarrow> visual_element list" where
  "biblio_word_elements u ws =
     map (\<lambda>w. \<lparr>rect = box_of w, elem_type = BiblioRef, text_snippet = c_text w,
                elem_size = None\<rparr>)
         (filter (\<lambda>w. re_search (BIBLIO_RE u) (c_text w)) ws)"

text \<open>Lines 516 to 560: the entries of the page and the annotations before the
  duplicates are removed. An exception of the loop over the lines leaves the function
  before anything is stored.\<close>

type_synonym page_result = "(entry list \<times> visual_element list) \<times> scan_state"

definition plumber_page_pass ::
  "platform \<Rightarrow> plumber_page \<Rightarrow> fitz_page \<Rightarrow> scan_state \<Rightarrow> error + page_result" where
  "plumber_page_pass u pp fp st =
     (case fold_err (plumber_line_step u pp) ([], [], None)
             (split_on 10 (the_text (extract_text pp))) of
        Inl e \<Rightarrow> Inl e
      | Inr (entries_data, ves, current_entry) \<Rightarrow>
          (case foldl (plumber_char_step u pp fp) (current_entry, ves, st) (chars pp) of
             (current_entry', ves', st') \<Rightarrow>
               Inr ((close_current u entries_data current_entry',
                     ves' @ biblio_word_elements u (extract_words pp)),
                    st')))"

definition extract_elements_from_plumber_page ::
  "platform \<Rightarrow> plumber_page \<Rightarrow> fitz_page \<Rightarrow> scan_state \<Rightarrow> error + page_result" where
  "extract_elements_from_plumber_page u pp fp st =
     (if the_text (extract_text pp) = [] then Inr (([], []), st)
      else
        (case plumber_page_pass u pp fp st of
           Inl e \<Rightarrow> Inl e
         | Inr ((entries_data, visual_elements), st') \<Rightarrow>
             Inr ((entries_data, unique_by_rect {} visual_elements), st')))"

section \<open>The raster strategy (lines 459 to 513)\<close>

text \<open>\<open>str(row['text'])\<close>: a missing text is the float NaN, printed as \<open>nan\<close>.\<close>

definition py_str :: "cell \<Rightarrow> ustr" where
  "py_str c = (case c of NaN \<Rightarrow> U ''nan'' | Txt t \<Rightarrow> t)"

definition isna :: "cell \<Rightarrow> bool" where
  "isna c \<longleftrightarrow> c = NaN"

text \<open>Lines 466 to 473: the words of one (block, line) pair make one line.\<close>

type_synonym line_state = "ustr list \<times> ustr list \<times> int \<times> int"

definition ocr_word_step :: "line_state \<Rightarrow> ocr_row \<Rightarrow> line_state" where
  "ocr_word_step ls row =
     (case ls of (lines_for_parsing, current_line_words, last_block_num, last_line_num) \<Rightarrow>
      let new_line = (block_num row \<noteq> last_block_num \<or> line_num row \<noteq> last_line_num);
          lines' = (if new_line \<and> current_line_words \<noteq> []
                    then lines_for_parsing @ [join (U '' '') current_line_words]
                    else lines_for_parsing);
          words' = (if new_line then [] else current_line_words)
      in (lines', words' @ [strip (py_str (row_text row))], block_num row, line_num row))"

definition ocr_lines :: "ocr_row list \<Rightarrow> ustr list" where
  "ocr_lines rows =
     (case foldl ocr_word_step ([], [], - 1, - 1) rows of
        (lines_for_parsing, current_line_words, _, _) \<Rightarrow>
          if current_line_words \<noteq> [] then lines_for_parsing @ [join (U '' '') current_line_words]
          else lines_for_parsing)"

definition ocr_line_step ::
  "platform \<Rightarrow> nat \<Rightarrow> entry list \<times> open_entry option \<Rightarrow> ustr \<Rightarrow> entry list \<times> open_entry option" where
  "ocr_line_step u pg st line_text_raw =
     (let line_text = strip line_text_raw
      in if line_text = [] then st else segment_line u pg line_text st)"

text \<open>Line 505: the last entry of the list whose page number is the page's.\<close>

fun find_last :: "('a \<Rightarrow> bool) \<Rightarrow> 'a list \<Rightarrow> nat option" where
  "find_last P [] = None"
| "find_last P (x # xs) =
     (case find_last P xs of Some i \<Rightarrow> Some (Suc i)
      | None \<Rightarrow> if P x then Some 0 else None)"

text \<open>Line 76 sets both zoom factors to the float 2.0.\<close>

definition zoom_x :: rat where "zoom_x = 2"
definition zoom_y :: rat where "zoom_y = 2"

text \<open>
  Line 498: the pixel box of a row in page coordinates. The columns of the table are
  64-bit integers; dividing an integer by a float converts the integer to a float and
  divides floats.
\<close>

definition pdf_box_of_row :: "ocr_row \<Rightarrow> bbox" where
  "pdf_box_of_row row =
     (let x = row_left row; y = row_top row; w = row_width row; h = row_height row
      in (fdiv (binary64 (of_int x)) zoom_x, fdiv (binary64 (of_int y)) zoom_y,
          fdiv (binary64 (of_int (x + w))) zoom_x, fdiv (binary64 (of_int (y + h))) zoom_y))"

text \<open>Line 500: the text occurs in the heading of an entry of this page.\<close>

definition is_heading_word :: "nat \<Rightarrow> entry list \<Rightarrow> ustr \<Rightarrow> bool" where
  "is_heading_word pg entries_data text \<longleftrightarrow>
     list_ex (\<lambda>e. contains text (heading e)) (filter (\<lambda>e. page_number e = pg) entries_data)"

type_synonym ocr_state = "entry list \<times> visual_element list \<times> scan_state"

definition ocr_row_step :: "platform \<Rightarrow> fitz_page \<Rightarrow> ocr_state \<Rightarrow> ocr_row \<Rightarrow> ocr_state" where
  "ocr_row_step u fp os row =
     (case os of (entries_data, visual_elements, st) \<Rightarrow>
      if isna (row_text row) \<or> strip (py_str (row_text row)) = [] then os
      else
        let x = row_left row; y = row_top row; w = row_width row; h = row_height row;
            text = strip (py_str (row_text row));
            pdf_box = pdf_box_of_row row;
            pg = number fp + 1;
            ve = (\<lambda>t. \<lparr>rect = (of_int x, of_int y, of_int w, of_int h), elem_type = t,
                        text_snippet = text, elem_size = Some (w, h)\<rparr>)
        in if is_heading_word pg entries_data text
             then (entries_data, visual_elements @ [ve Heading], st)
           else if re_search (BIBLIO_RE u) text
             then (entries_data, visual_elements @ [ve BiblioRef], st)
           else if re_match (POTENTIAL_SYMBOL_RE_OCR u) text \<noteq> None then
             (case find_last (\<lambda>e. page_number e = pg) entries_data of
                None \<Rightarrow> (entries_data, visual_elements @ [ve PotentialSymbol], st)
              | Some i \<Rightarrow>
                  let active = entries_data ! i in
                  (case save_sigil_image u fp pdf_box (heading active) pg st of
                     (Some img_path, st') \<Rightarrow>
                       (entries_data[i := active\<lparr>sigils_metadata := sigils_metadata active @
                          [\<lparr>image_path = img_path, parent_entry_heading = heading active,
                            sigil_page_number = pg, source_text = text,
                            bounding_box_pdf_coords = pdf_box, extraction_method = Ocr\<rparr>]\<rparr>],
                        visual_elements @ [ve SavedSigil], st')
                   | (None, st') \<Rightarrow>
                       (entries_data, visual_elements @ [ve PotentialSymbol], st')))
           else (entries_data, visual_elements @ [ve TextBlock], st))"

definition extract_elements_with_ocr ::
  "platform \<Rightarrow> fitz_page \<Rightarrow> scan_state \<Rightarrow> page_result" where
  "extract_elements_with_ocr u fp st =
     (case ocr_data fp of
        None \<Rightarrow> (([], []), st\<lparr>log := log st @ [OcrError (number fp + 1)]\<rparr>)
      | Some table \<Rightarrow>
          let rows = filter (\<lambda>r. conf r > - 1) table;
              seg = foldl (ocr_line_step u (number fp + 1)) ([], None) (ocr_lines rows);
              entries_data = close_current u (fst seg) (snd seg)
          in (case foldl (ocr_row_step u fp) (entries_data, [], st) rows of
                (entries_data', visual_elements, st') \<Rightarrow> ((entries_data', visual_elements), st')))"

section \<open>The scan (lines 414 to 457)\<close>

text \<open>
  \<open>start_scan_thread\<close> empties the dataset and resets the counter; the worker then
  runs one strategy over the pages of the range in order and collects their entries.
  An exception that leaves a page is caught by the worker's handler (line 452), which
  logs a scan error and ends the scan: the pages that follow are not read.
\<close>

definition start_scan :: "scan_state \<Rightarrow> scan_state" where
  "start_scan st = st\<lparr>sigil_counter := 0\<rparr>"

definition scan_page ::
  "platform \<Rightarrow> bool \<Rightarrow> scan_state \<Rightarrow> fitz_page \<times> plumber_page \<Rightarrow> error + page_result" where
  "scan_page u use_ocr st pg =
     (if use_ocr then Inr (extract_elements_with_ocr u (fst pg) st)
      else extract_elements_from_plumber_page u (snd pg) (fst pg) st)"

fun scan_loop ::
  "platform \<Rightarrow> bool \<Rightarrow> entry list \<times> scan_state \<Rightarrow> (fitz_page \<times> plumber_page) list
     \<Rightarrow> entry list \<times> scan_state" where
  "scan_loop u use_ocr acc [] = acc"
| "scan_loop u use_ocr acc (pg # pages) =
     (case scan_page u use_ocr (snd acc) pg of
        Inl e \<Rightarrow> (fst acc, (snd acc)\<lparr>log := log (snd acc) @ [ScanError e]\<rparr>)
      | Inr ((parsed_entries, visual_elements), st') \<Rightarrow>
          scan_loop u use_ocr (fst acc @ parsed_entries, st') pages)"

definition scan_pages ::
  "platform \<Rightarrow> bool \<Rightarrow> (fitz_page \<times> plumber_page) list \<Rightarrow> scan_state \<Rightarrow> entry list \<times> scan_state" where
  "scan_pages u use_ocr pages st = scan_loop u use_ocr ([], start_scan st) pages"

section \<open>The drawn-sigil search (lines 647 to 671)\<close>

type_synonym rgb = "nat \<times> nat \<times> nat"
type_synonym image = "rgb list"
type_synonym phash = "bool list"

definition DRAW_CANVAS_WIDTH :: nat where "DRAW_CANVAS_WIDTH = 250"
definition DRAW_CANVAS_HEIGHT :: nat where "DRAW_CANVAS_HEIGHT = 250"
definition DRAW_BG_COLOR :: ustr where "DRAW_BG_COLOR = U ''white''"

text \<open>
  The hashing library and the file system are external collaborators: the perceptual
  hash of the drawing (nothing when hashing raises), whether a path exists, the hash of
  the image stored at a path (nothing when opening or hashing raises), and the dataset
  read from the output file (nothing when the file is missing or malformed).
\<close>

record search_env =
  phash_drawn :: "image \<Rightarrow> phash option"
  path_exists :: "ustr \<Rightarrow> bool"
  phash_file :: "ustr \<Rightarrow> phash option"
  load_json :: "entry list option"

text \<open>\<open>img.getcolors(maxcolors)\<close>: the (count, colour) pairs of the image, or
  nothing when it has more than \<open>maxcolors\<close> colours.\<close>

definition getcolors :: "nat \<Rightarrow> image \<Rightarrow> (nat \<times> rgb) list option" where
  "getcolors maxcolors img =
     (let cs = remdups img
      in if length cs > maxcolors then None
         else Some (map (\<lambda>c. (count_list img c, c)) cs))"

text \<open>The difference of two hashes: the number of positions where they differ;
  hashes of different shapes raise.\<close>

definition hash_sub :: "phash \<Rightarrow> phash \<Rightarrow> nat option" where
  "hash_sub a b =
     (if length a \<noteq> length b then None
      else Some (length (filter (\<lambda>(x, y). x \<noteq> y) (zip a b))))"

record match_info =
  distance :: nat
  sigil_meta_of :: sigil_meta
  parent_entry :: entry

datatype event = LoadData | HashDrawn | OpenDbImage ustr

text \<open>How a search ends: with one of its three messages, with the list of matches it
  displays, or with an exception that nothing in the function catches.\<close>

datatype outcome =
    ErrorNotLoaded | EmptyCanvas | HashingError | TopMatches "match_info list" | Raised error

record search_run =
  result :: outcome
  events :: "event list"
  warnings :: "log_msg list"

text \<open>
  \<open>Image.Color.getrgb(DRAW_BG_COLOR)\<close>, where \<open>Image\<close> is the module \<open>PIL.Image\<close>
  imported on line 3. That module has no attribute \<open>Color\<close> (the colour table of the
  library is the module \<open>PIL.ImageColor\<close>), so evaluating the expression raises
  \<open>AttributeError\<close>.
\<close>

definition Image_Color_getrgb :: "ustr \<Rightarrow> error + rgb" where
  "Image_Color_getrgb color = Inl (AttributeError (U ''Color''))"

text \<open>
  Lines 654 and 655, the condition: one colour, the background's, on every pixel of the
  canvas. The operands of \<open>and\<close> are evaluated from left to right: with more than one
  colour \<open>getcolors(1)\<close> is \<open>None\<close> and nothing else is evaluated; otherwise the colour
  of the image is compared with the result of the colour lookup.
\<close>

definition canvas_is_blank :: "image \<Rightarrow> error + bool" where
  "canvas_is_blank img =
     (case getcolors 1 img of
        None \<Rightarrow> Inr False
      | Some [] \<Rightarrow> Inr False
      | Some ((n, c) # _) \<Rightarrow>
          (case Image_Color_getrgb DRAW_BG_COLOR of
             Inl e \<Rightarrow> Inl e
           | Inr bg \<Rightarrow> Inr (c = bg \<and> n = DRAW_CANVAS_WIDTH * DRAW_CANVAS_HEIGHT)))"

type_synonym match_state = "match_info list \<times> event list \<times> log_msg list"

text \<open>Lines 661 to 668, the body run for each sigil of each entry.\<close>

definition match_sigil :: "search_env \<Rightarrow> phash \<Rightarrow> entry \<Rightarrow> match_state \<Rightarrow> sigil_meta \<Rightarrow> match_state" where
  "match_sigil env drawn_hash e ms sm =
     (case ms of (matches, evs, warns) \<Rightarrow>
      let img_path = image_path sm in
      if img_path \<noteq> [] \<and> path_exists env img_path then
        (case phash_file env img_path of
           None \<Rightarrow> (matches, evs @ [OpenDbImage img_path], warns @ [WarningDbImage img_path])
         | Some db_hash \<Rightarrow>
             (case hash_sub drawn_hash db_hash of
                None \<Rightarrow> (matches, evs @ [OpenDbImage img_path], warns @ [WarningDbImage img_path])
              | Some d \<Rightarrow>
                  (matches @ [\<lparr>distance = d, sigil_meta_of = sm, parent_entry = e\<rparr>],
                   evs @ [OpenDbImage img_path], warns)))
      else ms)"

definition match_entry :: "search_env \<Rightarrow> phash \<Rightarrow> match_state \<Rightarrow> entry \<Rightarrow> match_state" where
  "match_entry env drawn_hash ms e = foldl (match_sigil env drawn_hash e) ms (sigils_metadata e)"

definition search_drawn_sigil_action :: "search_env \<Rightarrow> entry list \<Rightarrow> image \<Rightarrow> search_run" where
  "search_drawn_sigil_action env scanned_data_for_query drawn_image =
     (let must_load = (scanned_data_for_query = []);
          scanned = (if must_load then (case load_json env of None \<Rightarrow> [] | Some d \<Rightarrow> d)
                     else scanned_data_for_query);
          evs0 = (if must_load then [LoadData] else [])
      in if scanned = [] then \<lparr>result = ErrorNotLoaded, events = evs0, warnings = []\<rparr>
         else
           (case canvas_is_blank drawn_image of
              Inl e \<Rightarrow> \<lparr>result = Raised e, events = evs0, warnings = []\<rparr>
            | Inr True \<Rightarrow> \<lparr>result = EmptyCanvas, events = evs0, warnings = []\<rparr>
            | Inr False \<Rightarrow>
                (case phash_drawn env drawn_image of
                   None \<Rightarrow> \<lparr>result = HashingError, events = evs0 @ [HashDrawn], warnings = []\<rparr>
                 | Some drawn_hash \<Rightarrow>
                     (case foldl (match_entry env drawn_hash) ([], evs0 @ [HashDrawn], [])
                             scanned of
                        (matches, evs, warns) \<Rightarrow>
                          \<lparr>result = TopMatches (take 10 (sort_key distance matches)),
                           events = evs, warnings = warns\<rparr>))))"

section \<open>Notions used to state the properties\<close>

text \<open>A platform whose tables hold nothing beyond ASCII, for concrete runs.\<close>

definition ascii_platform :: platform where
  "ascii_platform = \<lparr>uni_isalnum = (\<lambda>c. False), uni_isdecimal = (\<lambda>c. False), os_sep = 47\<rparr>"

text \<open>
  The heading pattern as the specification prints it, with the ASCII apostrophe (code
  point 39) in the class of the run where the source has U+2019.
\<close>

definition spec_heading_run :: "nat \<Rightarrow> bool" where
  "spec_heading_run c \<longleftrightarrow> in_range 65 90 c \<or> in_range 48 57 c \<or> isspace c
     \<or> c = 45 \<or> c = 44 \<or> c = 39"

definition HEADING_CLASS_RE_spec :: rx where
  "HEADING_CLASS_RE_spec =
     Cat Bol
      (Cat (Grp 1 (Cat (Cls heading_first) (Rep False 1 None spec_heading_run)))
      (Cat (Rep True 1 None isspace) class_tag_rx))"

text \<open>
  The language of the source's pattern, read off character by character: a heading run
  is a first character followed by at least one character of the run class; a tag is
  an upper-case letter, one to three lower-case letters and a full stop.
\<close>

definition heading_shape :: "ustr \<Rightarrow> bool" where
  "heading_shape h \<longleftrightarrow>
     (case h of [] \<Rightarrow> False | c # cs \<Rightarrow> heading_first c \<and> cs \<noteq> [] \<and> list_all heading_run cs)"

definition tag_shape :: "ustr \<Rightarrow> bool" where
  "tag_shape t \<longleftrightarrow>
     (case t of [] \<Rightarrow> False
      | c # r \<Rightarrow> in_range 65 90 c \<and> r \<noteq> [] \<and> last r = 46 \<and> 1 \<le> length (butlast r)
          \<and> length (butlast r) \<le> 3 \<and> list_all (in_range 97 122) (butlast r))"

definition heading_prefix :: "ustr \<Rightarrow> bool" where
  "heading_prefix s \<longleftrightarrow>
     (\<exists>h ws t r. s = h @ ws @ t @ r \<and> heading_shape h \<and> ws \<noteq> [] \<and> list_all isspace ws
        \<and> tag_shape t)"

text \<open>The number of entries begun so far: those closed and the open one.\<close>

definition entries_begun :: "entry list \<times> open_entry option \<Rightarrow> nat" where
  "entries_begun st = length (fst st) + (case snd st of None \<Rightarrow> 0 | Some c \<Rightarrow> 1)"

text \<open>The lines the segmenter sees: stripped, the empty ones dropped.\<close>

definition clean_lines :: "ustr list \<Rightarrow> ustr list" where
  "clean_lines raw = filter (\<lambda>l. l \<noteq> []) (map strip raw)"

definition is_heading_line :: "ustr \<Rightarrow> bool" where
  "is_heading_line l \<longleftrightarrow> re_match HEADING_CLASS_RE l \<noteq> None"

text \<open>
  The entries of a page as the specification describes them: one entry for each heading
  line, in order, whose description is the text after the tag on the heading line (when
  there is any) and the lines up to the next heading line, joined with single spaces
  and stripped; its references are extracted from that description.
\<close>

fun described_entries :: "platform \<Rightarrow> nat \<Rightarrow> ustr list \<Rightarrow> entry list" where
  "described_entries u pg [] = []"
| "described_entries u pg (l # ls) =
     (case re_match HEADING_CLASS_RE l of
        None \<Rightarrow> described_entries u pg ls
      | Some m \<Rightarrow>
          (let trailing = strip (m_rest m);
               body = takeWhile (\<lambda>x. \<not> is_heading_line x) ls;
               d = strip (join (U '' '') ((if trailing \<noteq> [] then [trailing] else []) @ body))
           in \<lparr>heading = strip (m_group m 1), entry_class = strip (m_group m 2),
               sigils_metadata = [], description = d,
               references_raw = extract_references u d, page_number = pg\<rparr>
              # described_entries u pg ls))"

definition without_sigils :: "entry \<Rightarrow> entry" where
  "without_sigils e = e\<lparr>sigils_metadata := []\<rparr>"

text \<open>A list of entries with further sigil metadata appended to its last entry.\<close>

definition attach_to_last :: "entry list \<Rightarrow> sigil_meta list \<Rightarrow> entry list" where
  "attach_to_last es sg =
     (if es = [] then []
      else butlast es @ [(last es)\<lparr>sigils_metadata := sigils_metadata (last es) @ sg\<rparr>])"

text \<open>Line 495 skips a row whose text is missing or blank; the \<open>rect\<close> of a row's
  annotation is its pixel box (left, top, width, height).\<close>

definition blank_row :: "ocr_row \<Rightarrow> bool" where
  "blank_row row \<longleftrightarrow> isna (row_text row) \<or> strip (py_str (row_text row)) = []"

definition ocr_row_box :: "ocr_row \<Rightarrow> bbox" where
  "ocr_row_box row =
     (of_int (row_left row), of_int (row_top row), of_int (row_width row), of_int (row_height row))"

text \<open>Concrete inputs for runs: a state at the start of a scan, a renderer that
  crops every box to a 16 by 16 pixmap and writes it, and a 500 by 700 page of the
  text layer with page number 1 and no drawn lines.\<close>

definition fresh_state :: scan_state where
  "fresh_state = \<lparr>sigil_counter = 0, saved_files = [], log = []\<rparr>"

definition good_pixmap :: pixmap where
  "good_pixmap = \<lparr>pix_width = 16, pix_height = 16, pix_save = (\<lambda>p. True)\<rparr>"

definition plain_fitz_page :: "ocr_row list option \<Rightarrow> fitz_page" where
  "plain_fitz_page table = \<lparr>number = 0, get_pixmap = (\<lambda>b. Some good_pixmap), ocr_data = table\<rparr>"

definition text_page :: "ustr \<Rightarrow> char_info list \<Rightarrow> plumber_page" where
  "text_page t cs =
     \<lparr>chars = cs, extract_text = Some t, page_lines = [], extract_words = [],
      page_width = 500, page_height = 700, plumber_page_number = 1\<rparr>"

definition word_row :: "int \<Rightarrow> int \<Rightarrow> ustr \<Rightarrow> int \<times> int \<times> int \<times> int \<Rightarrow> ocr_row" where
  "word_row b l t box =
     \<lparr>block_num = b, line_num = l, conf = 90, row_text = Txt t,
      row_left = fst box, row_top = fst (snd box), row_width = fst (snd (snd box)),
      row_height = snd (snd (snd box))\<rparr>"

text \<open>An OCR table whose words make the one line
  \<open>ABRACADABRA Sym. A mystical word of power. Agrippa 1533.\<close>\<close>

definition abra_table :: "ocr_row list" where
  "abra_table =
     [word_row 1 1 (U ''ABRACADABRA'') (0, 0, 110, 10), word_row 1 1 (U ''Sym.'') (120, 0, 40, 10),
      word_row 1 1 (U ''A'') (170, 0, 10, 10), word_row 1 1 (U ''mystical'') (190, 0, 80, 10),
      word_row 1 1 (U ''word'') (280, 0, 40, 10), word_row 1 1 (U ''of'') (330, 0, 20, 10),
      word_row 1 1 (U ''power.'') (360, 0, 60, 10), word_row 1 1 (U ''Agrippa'') (430, 0, 70, 10),
      word_row 1 1 (U ''1533.'') (510, 0, 50, 10)]"

text \<open>An OCR table of two lines, \<open>FOO Abc. *\<close> and \<open>BAR Def. x\<close>; the token \<open>*\<close>
  stands on the first line.\<close>

definition two_entry_table :: "ocr_row list" where
  "two_entry_table =
     [word_row 1 1 (U ''FOO'') (0, 0, 30, 10), word_row 1 1 (U ''Abc.'') (40, 0, 30, 10),
      word_row 1 1 (U ''*'') (80, 0, 8, 8),
      word_row 1 2 (U ''BAR'') (0, 20, 30, 10), word_row 1 2 (U ''Def.'') (40, 20, 30, 10),
      word_row 1 2 (U ''x'') (80, 20, 8, 8)]"


text \<open>A page of the text layer with the line \<open>FOO Abc. x\<close> and one character \<open>*\<close>
  whose box is (10, 10, 12, 12).\<close>

definition star_char :: char_info where
  "star_char = \<lparr>c_text = U ''*'', c_x0 = 10, c_top = 10, c_x1 = 12, c_bottom = 12\<rparr>"

definition star_page :: plumber_page where
  "star_page = text_page (U ''FOO Abc. x'') [star_char]"





text \<open>An OCR table with two words in the same pixel box, and a page of the text layer
  with two characters \<open>*\<close> in the same box.\<close>

definition overlapping_table :: "ocr_row list" where
  "overlapping_table = [word_row 1 1 (U ''a'') (0, 0, 5, 5), word_row 1 1 (U ''b'') (0, 0, 5, 5)]"

definition double_star_page :: plumber_page where
  "double_star_page = text_page (U ''FOO Abc. x'') [star_char, star_char]"

text \<open>
  A list of files written under a counter value \<open>n\<close>: each is the path built for some
  heading, page number and id, the ids strictly increase along the list and lie between
  1 and \<open>n\<close>.
\<close>

definition issued :: "platform \<Rightarrow> nat \<Rightarrow> ustr list \<Rightarrow> bool" where
  "issued u n files \<longleftrightarrow>
     (\<exists>tags. files = map (\<lambda>t. img_path_of u (fst t) (fst (snd t)) (snd (snd t))) tags
        \<and> sorted_wrt (<) (map (\<lambda>t. snd (snd t)) tags)
        \<and> (\<forall>t \<in> set tags. 1 \<le> snd (snd t) \<and> snd (snd t) \<le> n))"

text \<open>A renderer whose crop of the box (9, 9, 13, 13) is empty, and a page with one
  character in that box and one elsewhere.\<close>

definition patchy_fitz_page :: fitz_page where
  "patchy_fitz_page =
     \<lparr>number = 0,
      get_pixmap = (\<lambda>b. if b = (9, 9, 13, 13) then Some (good_pixmap\<lparr>pix_width := 0\<rparr>)
                         else Some good_pixmap),
      ocr_data = None\<rparr>"

definition two_star_page :: plumber_page where
  "two_star_page =
     text_page (U ''FOO Abc. x'')
       [star_char, \<lparr>c_text = U ''*'', c_x0 = 20, c_top = 20, c_x1 = 22, c_bottom = 22\<rparr>]"

text \<open>The files written since the scan began, \<open>base\<close> being the files written before.\<close>

definition written_since :: "platform \<Rightarrow> ustr list \<Rightarrow> scan_state \<Rightarrow> bool" where
  "written_since u base st \<longleftrightarrow>
     (\<exists>new. saved_files st = base @ new \<and> issued u (sigil_counter st) new)"

text \<open>The dataset a search works on: the one in memory, or, when that is empty, the one
  read from the output file.\<close>

definition dataset_in_use :: "search_env \<Rightarrow> entry list \<Rightarrow> entry list" where
  "dataset_in_use env scanned =
     (if scanned = [] then (case load_json env of None \<Rightarrow> [] | Some d \<Rightarrow> d) else scanned)"

text \<open>
  A sigil of the corpus is tried when its path is not empty and exists on disk; a tried
  sigil gives a match when its image can be hashed and the hash has the shape of the
  query's. \<open>all_matches\<close> lists the matches in corpus order, \<open>failed_images\<close> the paths
  of the tried sigils that give none.
\<close>

definition tried :: "search_env \<Rightarrow> sigil_meta \<Rightarrow> bool" where
  "tried env sm \<longleftrightarrow> image_path sm \<noteq> [] \<and> path_exists env (image_path sm)"

definition candidate_match :: "search_env \<Rightarrow> phash \<Rightarrow> entry \<Rightarrow> sigil_meta \<Rightarrow> match_info option" where
  "candidate_match env h e sm =
     (if tried env sm then
        (case phash_file env (image_path sm) of
           None \<Rightarrow> None
         | Some db_hash \<Rightarrow>
             (case hash_sub h db_hash of
                None \<Rightarrow> None
              | Some d \<Rightarrow> Some \<lparr>distance = d, sigil_meta_of = sm, parent_entry = e\<rparr>))
      else None)"

definition all_matches :: "search_env \<Rightarrow> phash \<Rightarrow> entry list \<Rightarrow> match_info list" where
  "all_matches env h data =
     concat (map (\<lambda>e. List.map_filter (candidate_match env h e) (sigils_metadata e)) data)"

definition failed_images :: "search_env \<Rightarrow> phash \<Rightarrow> entry list \<Rightarrow> ustr list" where
  "failed_images env h data =
     concat (map (\<lambda>e. map image_path
                    (filter (\<lambda>sm. tried env sm \<and> candidate_match env h e sm = None)
                            (sigils_metadata e))) data)"

text \<open>Concrete inputs: a query hash of four bits, a store with one image, and an entry
  whose two sigils point to that image and to a missing file.\<close>

definition demo_env :: search_env where
  "demo_env =
     \<lparr>phash_drawn = (\<lambda>img. Some [True, False, True, False]),
      path_exists = (\<lambda>p. p = U ''a.png''),
      phash_file = (\<lambda>p. Some [True, True, True, False]),
      load_json = None\<rparr>"

definition demo_sigil :: "ustr \<Rightarrow> sigil_meta" where
  "demo_sigil p =
     \<lparr>image_path = p, parent_entry_heading = U ''FOO'', sigil_page_number = 1,
      source_text = U ''*'', bounding_box_pdf_coords = (9, 9, 13, 13),
      extraction_method = Direct\<rparr>"

definition demo_entry :: entry where
  "demo_entry =
     \<lparr>heading = U ''FOO'', entry_class = U ''Abc.'',
      sigils_metadata = [demo_sigil (U ''gone.png''), demo_sigil (U ''a.png'')],
      description = U ''x'', references_raw = [], page_number = 1\<rparr>"

definition black_dot_image :: image where
  "black_dot_image = [(0, 0, 0), (255, 255, 255)]"

text \<open>The drawing as lines 82 and 641 leave it: every pixel white.\<close>

definition blank_canvas :: image where
  "blank_canvas = replicate (DRAW_CANVAS_WIDTH * DRAW_CANVAS_HEIGHT) (255, 255, 255)"

section \<open>The matcher: which states a pattern reaches\<close>

lemma rep_ends_mem:
  "(n, r) \<in> set (rep_ends p lo hi k s) \<longleftrightarrow>
     (\<exists>xs. s = xs @ r \<and> n = k + length xs \<and> lo \<le> n \<and> list_all p xs
           \<and> (xs = [] \<or> (case hi of None \<Rightarrow> True | Some h \<Rightarrow> n \<le> h)))"
proof (induction s arbitrary: k)
  case Nil
  then show ?case by auto
next
  case (Cons c cs)
  show ?case
  proof
    assume "(n, r) \<in> set (rep_ends p lo hi k (c # cs))"
    then consider (here) "lo \<le> k" "n = k" "r = c # cs"
      | (later) "p c" "(case hi of None \<Rightarrow> True | Some h \<Rightarrow> k < h)" "(n, r) \<in> set (rep_ends p lo hi (Suc k) cs)"
      by (auto split: if_splits)
    then show "\<exists>xs. c # cs = xs @ r \<and> n = k + length xs \<and> lo \<le> n \<and> list_all p xs
           \<and> (xs = [] \<or> (case hi of None \<Rightarrow> True | Some h \<Rightarrow> n \<le> h))"
    proof cases
      case here
      then show ?thesis by (intro exI[of _ "[]"]) simp
    next
      case later
      then obtain xs where xs: "cs = xs @ r" "n = Suc k + length xs" "lo \<le> n" "list_all p xs"
        "xs = [] \<or> (case hi of None \<Rightarrow> True | Some h \<Rightarrow> n \<le> h)"
        using Cons.IH[of "Suc k"] by auto
      show ?thesis
        using xs later(1,2) by (intro exI[of _ "c # xs"]) (auto split: option.splits)
    qed
  next
    assume "\<exists>xs. c # cs = xs @ r \<and> n = k + length xs \<and> lo \<le> n \<and> list_all p xs
           \<and> (xs = [] \<or> (case hi of None \<Rightarrow> True | Some h \<Rightarrow> n \<le> h))"
    then obtain xs where xs: "c # cs = xs @ r" "n = k + length xs" "lo \<le> n" "list_all p xs"
        "xs = [] \<or> (case hi of None \<Rightarrow> True | Some h \<Rightarrow> n \<le> h)" by blast
    show "(n, r) \<in> set (rep_ends p lo hi k (c # cs))"
    proof (cases xs)
      case Nil
      then show ?thesis using xs by auto
    next
      case (Cons y ys)
      then have ys: "y = c" "cs = ys @ r" "p c" "list_all p ys" using xs by auto
      have bound: "(case hi of None \<Rightarrow> True | Some h \<Rightarrow> k < h)"
        using xs Cons by (auto split: option.splits)
      have "(n, r) \<in> set (rep_ends p lo hi (Suc k) cs)"
        unfolding Cons.IH[of "Suc k"]
        using xs Cons ys by (intro exI[of _ ys]) (auto split: option.splits)
      then show ?thesis using ys bound by simp
    qed
  qed
qed

lemma rmatch_Cls_mem:
  "m \<in> set (rmatch (Cls p) (i, s, c)) \<longleftrightarrow> (\<exists>x cs. s = x # cs \<and> p x \<and> m = (Suc i, cs, c))"
  by (cases s) auto

lemma rmatch_Rep_mem:
  "m \<in> set (rmatch (Rep g lo hi p) (i, s, c)) \<longleftrightarrow>
     (\<exists>xs r. s = xs @ r \<and> lo \<le> length xs \<and> list_all p xs
        \<and> (xs = [] \<or> (case hi of None \<Rightarrow> True | Some h \<Rightarrow> length xs \<le> h))
        \<and> m = (i + length xs, r, c))"
proof -
  have "m \<in> set (rmatch (Rep g lo hi p) (i, s, c)) \<longleftrightarrow>
        (\<exists>k r. (k, r) \<in> set (rep_ends p lo hi 0 s) \<and> m = (i + k, r, c))"
    by (cases g) (force simp: Let_def image_iff)+
  also have "\<dots> \<longleftrightarrow> (\<exists>xs r. s = xs @ r \<and> lo \<le> length xs \<and> list_all p xs
        \<and> (xs = [] \<or> (case hi of None \<Rightarrow> True | Some h \<Rightarrow> length xs \<le> h))
        \<and> m = (i + length xs, r, c))"
    unfolding rep_ends_mem by auto
  finally show ?thesis .
qed

lemma rmatch_Cat_mem:
  "m \<in> set (rmatch (Cat a b) st) \<longleftrightarrow> (\<exists>st' \<in> set (rmatch a st). m \<in> set (rmatch b st'))"
  by auto

lemma rmatch_Grp_mem:
  "m \<in> set (rmatch (Grp n a) (i, s, c)) \<longleftrightarrow>
     (\<exists>j r c'. (j, r, c') \<in> set (rmatch a (i, s, c)) \<and> m = (j, r, (n, take (j - i) s) # c'))"
  by (force simp: image_iff)

lemma heading_group_mem:
  "m \<in> set (rmatch (Grp 1 (Cat (Cls heading_first) (Rep False 1 None heading_run))) (0, s, []))
     \<longleftrightarrow> (\<exists>h r. s = h @ r \<and> heading_shape h \<and> m = (length h, r, [(1, h)]))"
proof
  assume "m \<in> set (rmatch (Grp 1 (Cat (Cls heading_first) (Rep False 1 None heading_run))) (0, s, []))"
  then obtain j r c' where a: "(j, r, c') \<in> set (rmatch (Cat (Cls heading_first) (Rep False 1 None heading_run)) (0, s, []))"
    and m: "m = (j, r, (1, take (j - 0) s) # c')"
    unfolding rmatch_Grp_mem by blast
  from a obtain st' where b: "st' \<in> set (rmatch (Cls heading_first) (0, s, []))"
    and c: "(j, r, c') \<in> set (rmatch (Rep False 1 None heading_run) st')"
    unfolding rmatch_Cat_mem by blast
  from b obtain x cs where x: "s = x # cs" "heading_first x" "st' = (Suc 0, cs, [])"
    unfolding rmatch_Cls_mem by blast
  from c obtain xs r' where xs: "cs = xs @ r'" "1 \<le> length xs" "list_all heading_run xs"
    "(j, r, c') = (Suc 0 + length xs, r', [])"
    unfolding x(3) rmatch_Rep_mem by blast
  have "s = (x # xs) @ r" "heading_shape (x # xs)" "m = (length (x # xs), r, [(1, x # xs)])"
    using x xs m by (auto simp: heading_shape_def)
  then show "\<exists>h r. s = h @ r \<and> heading_shape h \<and> m = (length h, r, [(1, h)])" by blast
next
  assume "\<exists>h r. s = h @ r \<and> heading_shape h \<and> m = (length h, r, [(1, h)])"
  then obtain h r where h: "s = h @ r" "heading_shape h" "m = (length h, r, [(1, h)])" by blast
  then obtain x xs where x: "h = x # xs" "heading_first x" "xs \<noteq> []" "list_all heading_run xs"
    by (auto simp: heading_shape_def split: list.splits)
  have b: "(Suc 0, xs @ r, []) \<in> set (rmatch (Cls heading_first) (0, s, []))"
    unfolding rmatch_Cls_mem using h x by auto
  have c: "(Suc 0 + length xs, r, []) \<in> set (rmatch (Rep False 1 None heading_run) (Suc 0, xs @ r, []))"
    unfolding rmatch_Rep_mem using x by (intro exI[of _ xs] exI[of _ r]) (auto simp: Suc_le_eq)
  have "(Suc 0 + length xs, r, []) \<in> set (rmatch (Cat (Cls heading_first) (Rep False 1 None heading_run)) (0, s, []))"
    unfolding rmatch_Cat_mem using b c by blast
  then show "m \<in> set (rmatch (Grp 1 (Cat (Cls heading_first) (Rep False 1 None heading_run))) (0, s, []))"
    unfolding rmatch_Grp_mem using h x by auto
qed

lemma tag_shape_iff:
  "tag_shape t \<longleftrightarrow> (\<exists>c ls. t = c # ls @ [46] \<and> in_range 65 90 c \<and> 1 \<le> length ls \<and> length ls \<le> 3
       \<and> list_all (in_range 97 122) ls)"
proof
  assume "tag_shape t"
  then obtain c r where "t = c # r" "in_range 65 90 c" "r \<noteq> []" "last r = 46" "1 \<le> length (butlast r)"
    "length (butlast r) \<le> 3" "list_all (in_range 97 122) (butlast r)"
    by (auto simp: tag_shape_def split: list.splits)
  moreover from this have "r = butlast r @ [46]" by (metis append_butlast_last_id)
  ultimately show "\<exists>c ls. t = c # ls @ [46] \<and> in_range 65 90 c \<and> 1 \<le> length ls \<and> length ls \<le> 3
       \<and> list_all (in_range 97 122) ls" by metis
next
  assume "\<exists>c ls. t = c # ls @ [46] \<and> in_range 65 90 c \<and> 1 \<le> length ls \<and> length ls \<le> 3
       \<and> list_all (in_range 97 122) ls"
  then show "tag_shape t" by (auto simp: tag_shape_def)
qed

lemma class_tag_mem:
  "m \<in> set (rmatch class_tag_rx (i, s, c))
     \<longleftrightarrow> (\<exists>t r. s = t @ r \<and> tag_shape t \<and> m = (i + length t, r, (2, t) # c))"
proof
  assume "m \<in> set (rmatch class_tag_rx (i, s, c))"
  then obtain j r c' where a: "(j, r, c') \<in> set (rmatch (Cat (Cls (in_range 65 90))
           (Cat (Rep True 1 (Some 3) (in_range 97 122)) (Cls (\<lambda>c. c = 46)))) (i, s, c))"
    and m: "m = (j, r, (2, take (j - i) s) # c')"
    unfolding class_tag_rx_def rmatch_Grp_mem by blast
  from a obtain st1 where b: "st1 \<in> set (rmatch (Cls (in_range 65 90)) (i, s, c))"
    and c: "(j, r, c') \<in> set (rmatch (Cat (Rep True 1 (Some 3) (in_range 97 122)) (Cls (\<lambda>c. c = 46))) st1)"
    unfolding rmatch_Cat_mem by blast
  from b obtain x cs where x: "s = x # cs" "in_range 65 90 x" "st1 = (Suc i, cs, c)"
    unfolding rmatch_Cls_mem by blast
  from c obtain st2 where d: "st2 \<in> set (rmatch (Rep True 1 (Some 3) (in_range 97 122)) (Suc i, cs, c))"
    and e: "(j, r, c') \<in> set (rmatch (Cls (\<lambda>c. c = 46)) st2)"
    unfolding rmatch_Cat_mem x(3) by blast
  from d obtain ls r2 where ls: "cs = ls @ r2" "1 \<le> length ls" "list_all (in_range 97 122) ls"
     "length ls \<le> 3" "st2 = (Suc i + length ls, r2, c)"
    unfolding rmatch_Rep_mem by auto
  from e obtain y where y: "r2 = y # r" "y = 46" "j = Suc (Suc i + length ls)" "c' = c"
    unfolding ls(5) rmatch_Cls_mem by auto
  have "s = (x # ls @ [46]) @ r" "tag_shape (x # ls @ [46])"
       "m = (i + length (x # ls @ [46]), r, (2, x # ls @ [46]) # c)"
    using x ls y m by (auto simp: tag_shape_iff)
  then show "\<exists>t r. s = t @ r \<and> tag_shape t \<and> m = (i + length t, r, (2, t) # c)" by blast
next
  assume "\<exists>t r. s = t @ r \<and> tag_shape t \<and> m = (i + length t, r, (2, t) # c)"
  then obtain t r where t: "s = t @ r" "tag_shape t" "m = (i + length t, r, (2, t) # c)" by blast
  then obtain x ls where x: "t = x # ls @ [46]" "in_range 65 90 x" "1 \<le> length ls" "length ls \<le> 3"
     "list_all (in_range 97 122) ls"
    unfolding tag_shape_iff by blast
  have b: "(Suc i, ls @ 46 # r, c) \<in> set (rmatch (Cls (in_range 65 90)) (i, s, c))"
    unfolding rmatch_Cls_mem using t x by auto
  have d: "(Suc i + length ls, 46 # r, c) \<in> set (rmatch (Rep True 1 (Some 3) (in_range 97 122)) (Suc i, ls @ 46 # r, c))"
    unfolding rmatch_Rep_mem using x by (intro exI[of _ ls] exI[of _ "46 # r"]) auto
  have e: "(Suc (Suc i + length ls), r, c) \<in> set (rmatch (Cls (\<lambda>c. c = 46)) (Suc i + length ls, 46 # r, c))"
    unfolding rmatch_Cls_mem by auto
  have "(Suc (Suc i + length ls), r, c) \<in> set (rmatch (Cat (Cls (in_range 65 90))
           (Cat (Rep True 1 (Some 3) (in_range 97 122)) (Cls (\<lambda>c. c = 46)))) (i, s, c))"
    unfolding rmatch_Cat_mem using b d e by blast
  then show "m \<in> set (rmatch class_tag_rx (i, s, c))"
    unfolding class_tag_rx_def rmatch_Grp_mem using t x by auto
qed

lemma rmatch_Bol0: "set (rmatch Bol (0, s, c)) = {(0, s, c)}"
  by simp

lemma re_match_not_None: "re_match r s \<noteq> None \<longleftrightarrow> (\<exists>m. m \<in> set (rmatch r (0, s, [])))"
  by (cases "rmatch r (0, s, [])") (auto simp: re_match_def)

lemma heading_match_mem:
  "m \<in> set (rmatch HEADING_CLASS_RE (0, s, [])) \<longleftrightarrow>
     (\<exists>h ws t r. s = h @ ws @ t @ r \<and> heading_shape h \<and> ws \<noteq> [] \<and> list_all isspace ws
        \<and> tag_shape t \<and> m = (length h + length ws + length t, r, [(2, t), (1, h)]))"
proof
  assume "m \<in> set (rmatch HEADING_CLASS_RE (0, s, []))"
  then have "\<exists>st0 \<in> set (rmatch Bol (0, s, [])). m \<in> set (rmatch (Cat (Grp 1 (Cat (Cls heading_first) (Rep False 1 None heading_run)))
      (Cat (Rep True 1 None isspace) class_tag_rx)) st0)"
    unfolding HEADING_CLASS_RE_def rmatch_Cat_mem[of m Bol] .
  then have "m \<in> set (rmatch (Cat (Grp 1 (Cat (Cls heading_first) (Rep False 1 None heading_run)))
      (Cat (Rep True 1 None isspace) class_tag_rx)) (0, s, []))"
    unfolding rmatch_Bol0 by blast
  then obtain st1 where a: "st1 \<in> set (rmatch (Grp 1 (Cat (Cls heading_first) (Rep False 1 None heading_run))) (0, s, []))"
    and b: "m \<in> set (rmatch (Cat (Rep True 1 None isspace) class_tag_rx) st1)"
    unfolding rmatch_Cat_mem[of m "Grp 1 (Cat (Cls heading_first) (Rep False 1 None heading_run))"] by blast
  from a obtain h r1 where h: "s = h @ r1" "heading_shape h" "st1 = (length h, r1, [(1, h)])"
    unfolding heading_group_mem by blast
  from b obtain st2 where c: "st2 \<in> set (rmatch (Rep True 1 None isspace) (length h, r1, [(1, h)]))"
    and d: "m \<in> set (rmatch class_tag_rx st2)"
    unfolding rmatch_Cat_mem h(3) by blast
  from c obtain ws r2 where ws: "r1 = ws @ r2" "1 \<le> length ws" "list_all isspace ws"
    "st2 = (length h + length ws, r2, [(1, h)])"
    unfolding rmatch_Rep_mem by auto
  from d obtain t r where t: "r2 = t @ r" "tag_shape t" "m = (length h + length ws + length t, r, [(2, t), (1, h)])"
    unfolding ws(4) class_tag_mem by blast
  have "s = h @ ws @ t @ r" "ws \<noteq> []" using h ws t by auto
  then show "\<exists>h ws t r. s = h @ ws @ t @ r \<and> heading_shape h \<and> ws \<noteq> [] \<and> list_all isspace ws
        \<and> tag_shape t \<and> m = (length h + length ws + length t, r, [(2, t), (1, h)])"
    using h ws t by blast
next
  assume "\<exists>h ws t r. s = h @ ws @ t @ r \<and> heading_shape h \<and> ws \<noteq> [] \<and> list_all isspace ws
        \<and> tag_shape t \<and> m = (length h + length ws + length t, r, [(2, t), (1, h)])"
  then obtain h ws t r where p: "s = h @ ws @ t @ r" "heading_shape h" "ws \<noteq> []" "list_all isspace ws"
    "tag_shape t" "m = (length h + length ws + length t, r, [(2, t), (1, h)])" by blast
  have a: "(length h, ws @ t @ r, [(1, h)]) \<in> set (rmatch (Grp 1 (Cat (Cls heading_first) (Rep False 1 None heading_run))) (0, s, []))"
    unfolding heading_group_mem using p by blast
  have c: "(length h + length ws, t @ r, [(1, h)]) \<in> set (rmatch (Rep True 1 None isspace) (length h, ws @ t @ r, [(1, h)]))"
    unfolding rmatch_Rep_mem using p by (intro exI[of _ ws] exI[of _ "t @ r"]) (auto simp: Suc_le_eq)
  have d: "m \<in> set (rmatch class_tag_rx (length h + length ws, t @ r, [(1, h)]))"
    unfolding class_tag_mem using p by blast
  have "m \<in> set (rmatch (Cat (Rep True 1 None isspace) class_tag_rx) (length h, ws @ t @ r, [(1, h)]))"
    unfolding rmatch_Cat_mem using c d by blast
  then have "m \<in> set (rmatch (Cat (Grp 1 (Cat (Cls heading_first) (Rep False 1 None heading_run)))
      (Cat (Rep True 1 None isspace) class_tag_rx)) (0, s, []))"
    unfolding rmatch_Cat_mem[of m "Grp 1 (Cat (Cls heading_first) (Rep False 1 None heading_run))"]
    using a by blast
  then show "m \<in> set (rmatch HEADING_CLASS_RE (0, s, []))"
    unfolding HEADING_CLASS_RE_def rmatch_Cat_mem[of m Bol] rmatch_Bol0 by blast
qed

lemma re_match_Some_mem: "re_match r s = Some m \<Longrightarrow> m \<in> set (rmatch r (0, s, []))"
  by (auto simp: re_match_def split: list.splits)

lemma heading_match_iff: "re_match HEADING_CLASS_RE s \<noteq> None \<longleftrightarrow> heading_prefix s"
proof -
  have "re_match HEADING_CLASS_RE s \<noteq> None \<longleftrightarrow> (\<exists>m. m \<in> set (rmatch HEADING_CLASS_RE (0, s, [])))"
    by (rule re_match_not_None)
  also have "\<dots> \<longleftrightarrow> heading_prefix s"
    unfolding heading_match_mem heading_prefix_def by blast
  finally show ?thesis .
qed

lemma heading_match_groups:
  assumes "re_match HEADING_CLASS_RE s = Some m"
  shows "\<exists>ws. s = m_group m 1 @ ws @ m_group m 2 @ m_rest m \<and> heading_shape (m_group m 1)
           \<and> ws \<noteq> [] \<and> list_all isspace ws \<and> tag_shape (m_group m 2)"
proof -
  from re_match_Some_mem[OF assms] obtain h ws t r where
    p: "s = h @ ws @ t @ r" "heading_shape h" "ws \<noteq> []" "list_all isspace ws" "tag_shape t"
       "m = (length h + length ws + length t, r, [(2, t), (1, h)])"
    unfolding heading_match_mem by blast
  have "m_group m 1 = h" "m_group m 2 = t" "m_rest m = r"
    using p(6) by (simp_all add: m_group_def m_rest_def)
  then show ?thesis using p by blast
qed

section \<open>The heading rule\<close>

lemmas pattern_defs =
  HEADING_CLASS_RE_def HEADING_CLASS_RE_spec_def class_tag_rx_def BIBLIO_RE_def
  POTENTIAL_SYMBOL_RE_OCR_def heading_first_def heading_run_def spec_heading_run_def
  biblio_run_def ocr_symbol_char_def ocr_excluded_punct_def in_range_def isspace_def
  isalnum_def isdecimal_def isword_def

lemmas match_defs = re_match_def m_group_def m_rest_def m_end_def U_def strip_def

lemma segment_line_begun:
  "entries_begun (segment_line u pg line st) =
     entries_begun st + (case re_match HEADING_CLASS_RE line of None \<Rightarrow> 0 | Some m \<Rightarrow> 1)"
  by (cases st; cases "snd st")
     (auto simp: segment_line_def entries_begun_def close_current_def Let_def split: option.splits)

text \<open>
  C1 (as amended). A line opens a new entry exactly when its prefix matches the source's
  pattern, that is, when it starts with a heading run, white space and a tag; the run
  class contains U+2019 and not the ASCII apostrophe. On a match the new entry's heading
  is group 1 stripped and its class is group 2 stripped, and the two groups are a
  heading run and a tag of the line separated by white space.
\<close>

theorem heading_rule:
  "(re_match HEADING_CLASS_RE line \<noteq> None \<longleftrightarrow> heading_prefix line) \<and>
   heading_run 8217 \<and> \<not> heading_run 39 \<and>
   (case re_match HEADING_CLASS_RE line of
      None \<Rightarrow> entries_begun (segment_line u pg line st) = entries_begun st
    | Some m \<Rightarrow>
        entries_begun (segment_line u pg line st) = entries_begun st + 1
        \<and> map_option o_heading (snd (segment_line u pg line st)) = Some (strip (m_group m 1))
        \<and> map_option o_class (snd (segment_line u pg line st)) = Some (strip (m_group m 2))
        \<and> (\<exists>ws. line = m_group m 1 @ ws @ m_group m 2 @ m_rest m \<and> heading_shape (m_group m 1)
              \<and> ws \<noteq> [] \<and> list_all isspace ws \<and> tag_shape (m_group m 2)))"
proof -
  have a: "re_match HEADING_CLASS_RE line \<noteq> None \<longleftrightarrow> heading_prefix line"
    by (rule heading_match_iff)
  have b: "heading_run 8217 \<and> \<not> heading_run 39"
    by (simp add: heading_run_def in_range_def isspace_def)
  have c: "(case re_match HEADING_CLASS_RE line of
      None \<Rightarrow> entries_begun (segment_line u pg line st) = entries_begun st
    | Some m \<Rightarrow>
        entries_begun (segment_line u pg line st) = entries_begun st + 1
        \<and> map_option o_heading (snd (segment_line u pg line st)) = Some (strip (m_group m 1))
        \<and> map_option o_class (snd (segment_line u pg line st)) = Some (strip (m_group m 2))
        \<and> (\<exists>ws. line = m_group m 1 @ ws @ m_group m 2 @ m_rest m \<and> heading_shape (m_group m 1)
              \<and> ws \<noteq> [] \<and> list_all isspace ws \<and> tag_shape (m_group m 2)))"
  proof (cases "re_match HEADING_CLASS_RE line")
    case None
    then show ?thesis by (simp add: segment_line_begun)
  next
    case (Some m)
    have "snd (segment_line u pg line st) =
       Some \<lparr>o_heading = strip (m_group m 1), o_class = strip (m_group m 2),
             o_sigils_metadata = [],
             description_parts = (if strip (m_rest m) \<noteq> [] then [strip (m_rest m)] else []),
             o_page_number = pg\<rparr>"
      using Some by (simp add: segment_line_def Let_def)
    then show ?thesis
      using Some heading_match_groups[OF Some] by (simp add: segment_line_begun)
  qed
  show ?thesis using a b c by blast
qed

theorem heading_rule_witness:
  "re_match HEADING_CLASS_RE (U ''FOO Abc. first line'') \<noteq> None
   \<and> heading_prefix (U ''FOO Abc. first line'')
   \<and> entries_begun (segment_line ascii_platform 1 (U ''FOO Abc. first line'') ([], None)) = 1
   \<and> map_option o_heading (snd (segment_line ascii_platform 1 (U ''FOO Abc. first line'') ([], None)))
       = Some (U ''FOO'')"
proof -
  have m: "re_match HEADING_CLASS_RE (U ''FOO Abc. first line'')
             = Some (8, U '' first line'', [(2, U ''Abc.''), (1, U ''FOO'')])"
    by (simp add: pattern_defs match_defs)
  have s: "strip (U ''FOO'') = U ''FOO''"
    by (simp add: pattern_defs match_defs)
  show ?thesis
    using heading_rule[of "U ''FOO Abc. first line''" ascii_platform 1 "([], None)"] m s
    by (simp add: entries_begun_def m_group_def)
qed

theorem heading_rule_apostrophe_counterexample:
  "re_match HEADING_CLASS_RE_spec (U ''O'' @ [39] @ U ''NEIL Sym. x'') \<noteq> None
   \<and> segment_line ascii_platform 1 (U ''O'' @ [39] @ U ''NEIL Sym. x'') ([], None) = ([], None)
   \<and> re_match HEADING_CLASS_RE_spec (U ''O'' @ [8217] @ U ''NEIL Sym. x'') = None
   \<and> snd (segment_line ascii_platform 1 (U ''O'' @ [8217] @ U ''NEIL Sym. x'') ([], None)) \<noteq> None"
  by (simp add: pattern_defs match_defs segment_line_def close_current_def)

section \<open>Rounding to binary64\<close>

text \<open>
  The exponent function finds the binade of its argument, so rounding keeps every
  number that a float holds: an integer multiple \<open>m * 2^e\<close> with \<open>|m| < 2^53\<close> and
  \<open>e\<close> at least \<open>-1074\<close>. In particular the integers below \<open>2^53\<close> are floats.
\<close>

lemma round_half_even_of_int: "round_half_even (of_int k) = k"
  by (simp add: round_half_even_def)

lemma bitlen_powi_bounds:
  assumes "0 < n"
  shows "(2::rat) powi (bitlen n - 1) \<le> of_int n" "of_int n < (2::rat) powi (bitlen n)"
proof -
  have b: "1 \<le> bitlen n" using assms bitlen_eq_zero_iff[of n] bitlen_nonneg[of n] by linarith
  have "(2::int) ^ nat (bitlen n - 1) \<le> n" "n < 2 ^ nat (bitlen n)"
    using bitlen_bounds[OF assms] by simp_all
  then have "of_int ((2::int) ^ nat (bitlen n - 1)) \<le> (of_int n :: rat)"
       "(of_int n :: rat) < of_int (2 ^ nat (bitlen n))"
    by (simp_all only: of_int_le_iff of_int_less_iff)
  then show "(2::rat) powi (bitlen n - 1) \<le> of_int n" "of_int n < (2::rat) powi (bitlen n)"
    using b by (simp_all add: power_int_def)
qed

lemma float_exponent_bounds:
  assumes "x \<noteq> 0"
  shows "2 powi (float_exponent x) \<le> \<bar>x\<bar> \<and> \<bar>x\<bar> < 2 powi (float_exponent x + 1)"
proof (cases "1 \<le> \<bar>x\<bar>")
  case True
  define n where "n = \<lfloor>\<bar>x\<bar>\<rfloor>"
  have n: "0 < n" using True by (simp add: n_def)
  have e: "float_exponent x = bitlen n - 1" using True by (simp add: float_exponent_def n_def)
  have "of_int n \<le> \<bar>x\<bar>" "\<bar>x\<bar> < of_int (n + 1)" unfolding n_def by linarith+
  moreover have "of_int (n + 1) \<le> (2::rat) powi (bitlen n)"
  proof -
    have "n < 2 ^ nat (bitlen n)" using bitlen_bounds[OF n] by simp
    then have "n + 1 \<le> 2 ^ nat (bitlen n)" by simp
    then have "(of_int (n + 1) :: rat) \<le> of_int (2 ^ nat (bitlen n))" by (simp only: of_int_le_iff)
    then show ?thesis using bitlen_nonneg[of n] by (simp add: power_int_def)
  qed
  ultimately show ?thesis using bitlen_powi_bounds[OF n] unfolding e by simp
next
  case False
  define y where "y = 1 / \<bar>x\<bar>"
  have x: "0 < \<bar>x\<bar>" "\<bar>x\<bar> < 1" using assms False by simp_all
  have y: "1 < y" unfolding y_def using x by simp
  define n where "n = \<lceil>y\<rceil> - 1"
  have n: "0 < n" unfolding n_def using y by linarith
  have e: "float_exponent x = - bitlen n" using False by (simp add: float_exponent_def n_def y_def)
  have k: "1 \<le> bitlen n" using n bitlen_eq_zero_iff[of n] bitlen_nonneg[of n] by linarith
  have le: "y \<le> of_int (n + 1)" and gt: "of_int n < y" unfolding n_def by linarith+
  have up: "of_int (n + 1) \<le> (2::rat) powi (bitlen n)"
  proof -
    have "n < 2 ^ nat (bitlen n)" using bitlen_bounds[OF n] by simp
    then have "n + 1 \<le> 2 ^ nat (bitlen n)" by simp
    then have "(of_int (n + 1) :: rat) \<le> of_int (2 ^ nat (bitlen n))" by (simp only: of_int_le_iff)
    then show ?thesis using bitlen_nonneg[of n] by (simp add: power_int_def)
  qed
  have p1: "y \<le> 2 powi (bitlen n)" using le up by linarith
  have p2: "2 powi (bitlen n - 1) < y" using gt bitlen_powi_bounds(1)[OF n] by linarith
  have pos: "(0::rat) < 2 powi (bitlen n)" "(0::rat) < 2 powi (bitlen n - 1)" by simp_all
  have xi: "\<bar>x\<bar> = 1 / y" unfolding y_def by simp
  have a: "2 powi (- bitlen n) \<le> \<bar>x\<bar>"
    unfolding xi power_int_minus_divide using p1 y pos by (simp add: frac_le)
  have b: "\<bar>x\<bar> < 2 powi (- bitlen n + 1)"
  proof -
    have "1 / y < 1 / 2 powi (bitlen n - 1)" using p2 pos by (simp add: frac_less2)
    also have "\<dots> = 2 powi (- (bitlen n - 1))" by (simp only: power_int_minus_divide)
    also have "- (bitlen n - 1) = - bitlen n + 1" by simp
    finally show ?thesis unfolding xi .
  qed
  show ?thesis unfolding e using a b by simp
qed

lemma two_powi_less: "(2::rat) powi a < 2 powi b \<Longrightarrow> a < b"
proof (rule ccontr)
  assume l: "(2::rat) powi a < 2 powi b" and "\<not> a < b"
  then have "b \<le> a" by simp
  then have "(2::rat) powi b \<le> 2 powi a" by (intro power_int_increasing) simp_all
  with l show False by linarith
qed

lemma float_exponent_unique:
  assumes "2 powi e \<le> \<bar>x\<bar>" "\<bar>x\<bar> < 2 powi (e + 1)"
  shows "float_exponent x = e"
proof -
  have x: "x \<noteq> 0"
  proof
    assume "x = 0"
    with assms(1) have "2 powi e \<le> (0::rat)" by simp
    moreover have "(0::rat) < 2 powi e" by simp
    ultimately show False by linarith
  qed
  from float_exponent_bounds[OF x] have
    f: "2 powi (float_exponent x) \<le> \<bar>x\<bar>" "\<bar>x\<bar> < 2 powi (float_exponent x + 1)" by simp_all
  have "(2::rat) powi e < 2 powi (float_exponent x + 1)" using assms(1) f(2) by linarith
  then have a: "e < float_exponent x + 1" by (rule two_powi_less)
  have "(2::rat) powi (float_exponent x) < 2 powi (e + 1)" using assms(2) f(1) by linarith
  then have b: "float_exponent x < e + 1" by (rule two_powi_less)
  show ?thesis using a b by simp
qed


lemma binary64_at:
  assumes "2 powi e \<le> \<bar>x\<bar>" "\<bar>x\<bar> < 2 powi (e + 1)" "- 1022 \<le> e"
  shows "binary64 x = of_int (round_half_even (x / 2 powi (e - 52))) * 2 powi (e - 52)"
proof -
  have x: "x \<noteq> 0"
  proof
    assume "x = 0"
    with assms(1) have "2 powi e \<le> (0::rat)" by simp
    moreover have "(0::rat) < 2 powi e" by simp
    ultimately show False by linarith
  qed
  show ?thesis
    using x assms(3) float_exponent_unique[OF assms(1,2)] by (simp add: binary64_def Let_def max_def)
qed

lemma binary64_exact:
  assumes "x = of_int m * 2 powi e" "\<bar>m\<bar> < 2 ^ 53" "- 1074 \<le> e"
  shows "binary64 x = x"
proof (cases "x = 0")
  case True
  then show ?thesis by (simp add: binary64_def)
next
  case False
  define E where "E = max (float_exponent x) (- 1022) - 52"
  have ax: "\<bar>x\<bar> = of_int \<bar>m\<bar> * 2 powi e" unfolding assms(1) by (simp add: abs_mult)
  have "of_int \<bar>m\<bar> < (2::rat) ^ 53"
    using assms(2) by (metis of_int_less_iff of_int_numeral of_int_power)
  then have "\<bar>x\<bar> < 2 ^ 53 * 2 powi e" unfolding ax by simp
  also have "\<dots> = 2 powi (53 + e)" by (simp add: power_int_add)
  finally have "2 powi (float_exponent x) < (2::rat) powi (53 + e)"
    using float_exponent_bounds[OF False] by linarith
  then have "float_exponent x < 53 + e" by (rule two_powi_less)
  then have Ee: "E \<le> e" unfolding E_def using assms(3) by simp
  have "x / 2 powi E = of_int m * 2 powi (e - E)"
    unfolding assms(1) by (simp add: power_int_diff)
  also have "\<dots> = of_int (m * 2 ^ nat (e - E))"
    using Ee by (simp add: power_int_def)
  finally have q: "x / 2 powi E = of_int (m * 2 ^ nat (e - E))" .
  have "binary64 x = of_int (round_half_even (x / 2 powi E)) * 2 powi E"
    using False by (simp add: binary64_def Let_def E_def)
  also have "\<dots> = x / 2 powi E * 2 powi E"
    unfolding q round_half_even_of_int ..
  also have "\<dots> = x" by simp
  finally show ?thesis .
qed

lemma binary64_of_int: "\<bar>m\<bar> < 2 ^ 53 \<Longrightarrow> binary64 (of_int m) = of_int m"
  using binary64_exact[of "of_int m" m 0] by simp

lemma binary64_0 [simp]: "binary64 0 = 0"
  by (simp add: binary64_def)

lemma binary64_1 [simp]: "binary64 1 = 1"
  using binary64_of_int[of 1] by simp

lemma binary64_numeral [simp]: "numeral k < (2::int) ^ 53 \<Longrightarrow> binary64 (numeral k) = numeral k"
  using binary64_of_int[of "numeral k"] by simp

lemma binary64_neg_numeral [simp]: "numeral k < (2::int) ^ 53 \<Longrightarrow> binary64 (- numeral k) = - numeral k"
  using binary64_of_int[of "- numeral k"] by simp

lemma round_half_even_tie: "even k \<Longrightarrow> round_half_even (of_int k + 1 / 2) = k"
proof -
  assume e: "even k"
  have f: "\<lfloor>(of_int k + 1 / 2 :: rat)\<rfloor> = k" by linarith
  show ?thesis unfolding round_half_even_def f Let_def using e by simp
qed


lemma round_half_even_bound:
  assumes "\<bar>z\<bar> < of_int N"
  shows "\<bar>round_half_even z\<bar> \<le> N"
proof -
  have "z < of_int N" "- of_int N < z" using assms by linarith+
  then have f: "\<lfloor>z\<rfloor> < N" "- N \<le> \<lfloor>z\<rfloor>" by linarith+
  have "round_half_even z = \<lfloor>z\<rfloor> \<or> round_half_even z = \<lfloor>z\<rfloor> + 1"
    by (simp add: round_half_even_def Let_def)
  then show ?thesis using f by linarith
qed

lemma binary64_idem [simp]: "binary64 (binary64 x) = binary64 x"
proof (cases "x = 0")
  case True
  then show ?thesis by simp
next
  case False
  define E where "E = max (float_exponent x) (- 1022) - 52"
  define k where "k = round_half_even (x / 2 powi E)"
  have y: "binary64 x = of_int k * 2 powi E"
    using False by (simp add: binary64_def Let_def E_def k_def)
  have "\<bar>x\<bar> < 2 powi (float_exponent x + 1)" using float_exponent_bounds[OF False] by simp
  also have "\<dots> \<le> 2 powi (E + 53)" by (intro power_int_increasing) (simp_all add: E_def)
  also have "\<dots> = 2 powi E * 2 ^ 53" by (simp add: power_int_add)
  finally have "\<bar>x\<bar> / 2 powi E < 2 ^ 53" by (simp add: pos_divide_less_eq mult.commute)
  then have "\<bar>x / 2 powi E\<bar> < of_int (2 ^ 53)" by (simp add: abs_divide)
  from round_half_even_bound[OF this] have kb: "\<bar>k\<bar> \<le> 2 ^ 53" unfolding k_def .
  have Eb: "- 1074 \<le> E" by (simp add: E_def)
  show ?thesis
  proof (cases "\<bar>k\<bar> < 2 ^ 53")
    case True
    show ?thesis unfolding y by (rule binary64_exact[OF refl True Eb])
  next
    case False
    then have "\<bar>k\<bar> = 2 ^ 53" using kb by simp
    then consider "k = 2 ^ 53" | "k = - (2 ^ 53)" by linarith
    then obtain m :: int where m: "k = 2 * m" "\<bar>m\<bar> < 2 ^ 53"
    proof cases
      case 1
      then show ?thesis using that[of "2 ^ 52"] by simp
    next
      case 2
      then show ?thesis using that[of "- (2 ^ 52)"] by simp
    qed
    have "of_int k * 2 powi E = of_int m * (2::rat) powi (E + 1)"
      unfolding m(1) by (simp add: power_int_add)
    moreover have "- 1074 \<le> E + 1" using Eb by simp
    ultimately show ?thesis unfolding y using binary64_exact[OF _ m(2)] by simp
  qed
qed

lemma padding_example:
  "binary64 (511 + 1 / 2 ^ 44) = 511 + 1 / 2 ^ 44"
  by (rule binary64_exact[of _ "511 * 2 ^ 44 + 1" "- 44"]) (simp_all add: power_int_minus field_simps)

lemma rounding_example: "binary64 (511 + 1 / 2 ^ 44 + 1) = 512"
proof -
  have "binary64 (511 + 1 / 2 ^ 44 + 1) = of_int (round_half_even ((511 + 1 / 2 ^ 44 + 1) / 2 powi (9 - 52))) * 2 powi (9 - 52)"
    by (rule binary64_at) simp_all
  also have "(511 + 1 / 2 ^ 44 + 1) / 2 powi (9 - 52) = (of_int 4503599627370496 + 1 / 2 :: rat)"
    by simp
  also have "of_int (round_half_even (of_int 4503599627370496 + 1 / 2)) * 2 powi (9 - 52) = (512 :: rat)"
  proof -
    have r: "round_half_even (of_int 4503599627370496 + 1 / 2) = 4503599627370496"
      by (rule round_half_even_tie) simp
    show ?thesis unfolding r by simp
  qed
  finally show ?thesis .
qed

lemma int_padding:
  assumes "\<bar>a\<bar> < 2 ^ 52"
  shows "fsub (binary64 (of_int a)) 1 = of_int (a - 1)" "fadd (binary64 (of_int a)) 1 = of_int (a + 1)"
proof -
  have a: "\<bar>a\<bar> < 2 ^ 53" "\<bar>a - 1\<bar> < 2 ^ 53" "\<bar>a + 1\<bar> < 2 ^ 53" using assms by simp_all
  show "fsub (binary64 (of_int a)) 1 = of_int (a - 1)"
    unfolding fsub_def binary64_of_int[OF a(1)] using binary64_of_int[OF a(2)] by simp
  show "fadd (binary64 (of_int a)) 1 = of_int (a + 1)"
    unfolding fadd_def binary64_of_int[OF a(1)] using binary64_of_int[OF a(3)] by simp
qed

section \<open>The segmenter as a grouping of lines\<close>

lemma segment_fold:
  "close_current u (fst (foldl (\<lambda>st l. segment_line u pg l st) (es, cur) ls))
                   (snd (foldl (\<lambda>st l. segment_line u pg l st) (es, cur) ls))
   = es @ (case cur of None \<Rightarrow> []
           | Some c \<Rightarrow> [finalize u (c\<lparr>description_parts :=
                          description_parts c @ takeWhile (\<lambda>x. \<not> is_heading_line x) ls\<rparr>)])
        @ described_entries u pg ls"
proof (induction ls arbitrary: es cur)
  case Nil
  then show ?case by (simp add: close_current_def split: option.splits)
next
  case (Cons l ls)
  show ?case
  proof (cases "re_match HEADING_CLASS_RE l")
    case None
    then have nh: "\<not> is_heading_line l" by (simp add: is_heading_line_def)
    show ?thesis
    proof (cases cur)
      case None': None
      have "segment_line u pg l (es, cur) = (es, None)"
        using None None' by (simp add: segment_line_def)
      then show ?thesis using Cons.IH[of es None] None None' by simp
    next
      case (Some c)
      have "segment_line u pg l (es, cur) = (es, Some (c\<lparr>description_parts := description_parts c @ [l]\<rparr>))"
        using None Some by (simp add: segment_line_def)
      then show ?thesis
        using Cons.IH[of es "Some (c\<lparr>description_parts := description_parts c @ [l]\<rparr>)"] None Some nh
        by simp
    qed
  next
    case (Some m)
    then have h: "is_heading_line l" by (simp add: is_heading_line_def)
    define c' where "c' = \<lparr>o_heading = strip (m_group m 1), o_class = strip (m_group m 2),
                     o_sigils_metadata = [],
                     description_parts = (if strip (m_rest m) \<noteq> [] then [strip (m_rest m)] else []),
                     o_page_number = pg\<rparr>"
    have step: "segment_line u pg l (es, cur) = (close_current u es cur, Some c')"
      using Some by (simp add: segment_line_def Let_def c'_def)
    have fin: "finalize u (c'\<lparr>description_parts :=
                  description_parts c' @ takeWhile (\<lambda>x. \<not> is_heading_line x) ls\<rparr>)
               # described_entries u pg ls = described_entries u pg (l # ls)"
      using Some by (simp add: finalize_def c'_def Let_def)
    have "close_current u es cur = es @ (case cur of None \<Rightarrow> [] | Some c \<Rightarrow> [finalize u c])"
      by (simp add: close_current_def split: option.splits)
    then show ?thesis
      using Cons.IH[of "close_current u es cur" "Some c'"] step h fin
      by (simp split: option.splits)
  qed
qed

text \<open>
  The loop over the lines of the text layer either raises or leaves the annotations as
  they were: no line ever gets a box. It raises exactly when the page has a line object
  and the text a line that is not blank.
\<close>

lemma plumber_line_step_cases:
  "plumber_line_step u pp (es, ves, cur) r =
     (if strip r = [] then Inr (es, ves, cur)
      else if page_lines pp = []
        then Inr (fst (segment_line u (plumber_page_number pp) (strip r) (es, cur)), ves,
                  snd (segment_line u (plumber_page_number pp) (strip r) (es, cur)))
      else Inl (KeyError (U ''text'')))"
  by (cases "page_lines pp")
     (simp_all add: plumber_line_step_def find_line_bbox_def Let_def split: option.splits)

lemma plumber_line_fold_Inr:
  "fold_err (plumber_line_step u pp) (es, ves, cur) raws = Inr (es', ves', cur')
     \<Longrightarrow> (es', cur') = foldl (\<lambda>st l. segment_line u (plumber_page_number pp) l st) (es, cur)
                           (clean_lines raws)
         \<and> ves' = ves"
proof (induction raws arbitrary: es cur)
  case Nil
  then show ?case by (simp add: clean_lines_def)
next
  case (Cons r raws)
  show ?case
  proof (cases "strip r = []")
    case True
    then have "fold_err (plumber_line_step u pp) (es, ves, cur) raws = Inr (es', ves', cur')"
      using Cons.prems by (simp add: plumber_line_step_cases)
    from Cons.IH[OF this] show ?thesis using True by (simp add: clean_lines_def)
  next
    case False
    obtain es1 cur1 where s: "segment_line u (plumber_page_number pp) (strip r) (es, cur) = (es1, cur1)"
      by force
    have "fold_err (plumber_line_step u pp) (es1, ves, cur1) raws = Inr (es', ves', cur')"
      using Cons.prems False s
      by (simp add: plumber_line_step_cases split: if_splits)
    from Cons.IH[OF this] show ?thesis using False s by (simp add: clean_lines_def)
  qed
qed

lemma plumber_line_fold_total:
  assumes "page_lines pp = []"
  shows "\<exists>r. fold_err (plumber_line_step u pp) st raws = Inr r"
proof (induction raws arbitrary: st)
  case Nil
  show ?case by (intro exI[of _ st]) simp
next
  case (Cons r raws)
  obtain es ves cur where st: "st = (es, ves, cur)" using prod_cases3 by blast
  show ?case
    unfolding st using Cons.IH assms
    by (simp add: plumber_line_step_cases)
qed

lemma plumber_line_fold_raises:
  assumes "page_lines pp \<noteq> []"
  shows "clean_lines raws \<noteq> []
     \<Longrightarrow> fold_err (plumber_line_step u pp) st raws = Inl (KeyError (U ''text''))"
proof (induction raws arbitrary: st)
  case Nil
  then show ?case by (simp add: clean_lines_def)
next
  case (Cons r raws)
  obtain es ves cur where st: "st = (es, ves, cur)" using prod_cases3 by blast
  show ?case
  proof (cases "strip r = []")
    case True
    then have "clean_lines raws \<noteq> []" using Cons.prems by (simp add: clean_lines_def)
    from Cons.IH[OF this] show ?thesis
      unfolding st using True by (simp add: plumber_line_step_cases)
  next
    case False
    then show ?thesis unfolding st using assms by (simp add: plumber_line_step_cases)
  qed
qed

lemma ocr_line_fold:
  "foldl (ocr_line_step u pg) st raws
   = foldl (\<lambda>st l. segment_line u pg l st) st (clean_lines raws)"
  by (induction raws arbitrary: st) (auto simp: clean_lines_def ocr_line_step_def Let_def)

section \<open>What the glyph passes change\<close>

lemma save_sigil_image_cases:
  assumes "save_sigil_image u fp b h p st = (r, st')"
  shows "sigil_counter st' = sigil_counter st + 1 \<and>
         (case r of
            Some path \<Rightarrow> path = img_path_of u h p (sigil_counter st + 1)
                         \<and> saved_files st' = saved_files st @ [path] \<and> log st' = log st
          | None \<Rightarrow> saved_files st' = saved_files st)"
  using assms
  by (auto simp: save_sigil_image_def Let_def split: option.splits if_splits)

lemma segment_fold_None:
  "snd (foldl (\<lambda>st l. segment_line u pg l st) (es, cur) ls) = None
     \<Longrightarrow> cur = None \<and> fst (foldl (\<lambda>st l. segment_line u pg l st) (es, cur) ls) = es"
proof (induction ls arbitrary: es cur)
  case Nil
  then show ?case by simp
next
  case (Cons l ls)
  obtain es1 cur1 where s: "segment_line u pg l (es, cur) = (es1, cur1)" by force
  from Cons.prems s have "snd (foldl (\<lambda>st l. segment_line u pg l st) (es1, cur1) ls) = None" by simp
  from Cons.IH[OF this] have c1: "cur1 = None" and e1: "fst (foldl (\<lambda>st l. segment_line u pg l st) (es1, cur1) ls) = es1"
    by auto
  from s c1 have "cur = None \<and> es1 = es"
    by (auto simp: segment_line_def Let_def split: option.splits)
  then show ?case using e1 s by simp
qed

lemma plumber_char_step_None:
  "plumber_char_step u pp fp (None, ves, st) ci = (None, ves, st)"
  by (simp add: plumber_char_step_def Let_def)

lemma plumber_char_fold_None:
  "foldl (plumber_char_step u pp fp) (None, ves, st) chs = (None, ves, st)"
  by (induction chs) (simp_all add: plumber_char_step_None)

lemma plumber_char_step_Some:
  assumes "plumber_char_step u pp fp (Some c, ves, st) ci = (cur', ves', st')"
  shows "\<exists>sg. cur' = Some (c\<lparr>o_sigils_metadata := o_sigils_metadata c @ sg\<rparr>)
            \<and> (\<forall>sm \<in> set sg. parent_entry_heading sm = o_heading c
                  \<and> sigil_page_number sm = plumber_page_number pp
                  \<and> extraction_method sm = Direct \<and> image_path sm \<in> set (saved_files st'))
            \<and> saved_files st' = saved_files st @ map image_path sg"
proof -
  consider (skip) "cur' = Some c" "st' = st"
    | (attempt) r where "save_sigil_image u fp (rect_tuple (padded_bbox_of ci)) (o_heading c)
                       (plumber_page_number pp) st = (r, st')"
        "case r of None \<Rightarrow> cur' = Some c
         | Some img_path \<Rightarrow> cur' = Some (c\<lparr>o_sigils_metadata := o_sigils_metadata c @
                       [\<lparr>image_path = img_path, parent_entry_heading = o_heading c,
                         sigil_page_number = plumber_page_number pp, source_text = c_text ci,
                         bounding_box_pdf_coords = rect_tuple (padded_bbox_of ci),
                         extraction_method = Direct\<rparr>]\<rparr>)"
    using assms
    by (auto simp: plumber_char_step_def Let_def split: if_splits prod.splits option.splits)
  then show ?thesis
  proof cases
    case skip
    then show ?thesis by (intro exI[of _ "[]"]) simp
  next
    case attempt
    show ?thesis
    proof (cases r)
      case None
      then show ?thesis using attempt save_sigil_image_cases[OF attempt(1)]
        by (intro exI[of _ "[]"]) simp
    next
      case (Some path)
      then show ?thesis using attempt save_sigil_image_cases[OF attempt(1)]
        by (intro exI[of _ "[\<lparr>image_path = path, parent_entry_heading = o_heading c,
                         sigil_page_number = plumber_page_number pp, source_text = c_text ci,
                         bounding_box_pdf_coords = rect_tuple (padded_bbox_of ci),
                         extraction_method = Direct\<rparr>]"]) simp
    qed
  qed
qed

lemma plumber_char_fold_Some:
  assumes "foldl (plumber_char_step u pp fp) (Some c, ves, st) chs = (cur', ves', st')"
  shows "\<exists>sg. cur' = Some (c\<lparr>o_sigils_metadata := o_sigils_metadata c @ sg\<rparr>)
            \<and> (\<forall>sm \<in> set sg. parent_entry_heading sm = o_heading c
                  \<and> sigil_page_number sm = plumber_page_number pp
                  \<and> extraction_method sm = Direct)
            \<and> saved_files st' = saved_files st @ map image_path sg"
  using assms
proof (induction chs arbitrary: c ves st)
  case Nil
  then show ?case by (intro exI[of _ "[]"]) simp
next
  case (Cons ci chs)
  obtain cur1 ves1 st1 where s: "plumber_char_step u pp fp (Some c, ves, st) ci = (cur1, ves1, st1)"
    by (cases "plumber_char_step u pp fp (Some c, ves, st) ci") auto
  from plumber_char_step_Some[OF s] obtain sg1 where
    sg1: "cur1 = Some (c\<lparr>o_sigils_metadata := o_sigils_metadata c @ sg1\<rparr>)"
      "\<forall>sm \<in> set sg1. parent_entry_heading sm = o_heading c
                  \<and> sigil_page_number sm = plumber_page_number pp
                  \<and> extraction_method sm = Direct"
      "saved_files st1 = saved_files st @ map image_path sg1" by blast
  from Cons.prems s sg1(1) have
    "foldl (plumber_char_step u pp fp) (Some (c\<lparr>o_sigils_metadata := o_sigils_metadata c @ sg1\<rparr>), ves1, st1) chs
       = (cur', ves', st')" by simp
  from Cons.IH[OF this] obtain sg2 where
    sg2: "cur' = Some (c\<lparr>o_sigils_metadata := o_sigils_metadata c @ sg1 @ sg2\<rparr>)"
      "\<forall>sm \<in> set sg2. parent_entry_heading sm = o_heading c
                  \<and> sigil_page_number sm = plumber_page_number pp
                  \<and> extraction_method sm = Direct"
      "saved_files st' = saved_files st1 @ map image_path sg2" by auto
  show ?case
    using sg1 sg2 by (intro exI[of _ "sg1 @ sg2"]) auto
qed

lemma finalize_sigils:
  "finalize u (c\<lparr>o_sigils_metadata := o_sigils_metadata c @ sg\<rparr>)
     = (finalize u c)\<lparr>sigils_metadata := sigils_metadata (finalize u c) @ sg\<rparr>"
  by (simp add: finalize_def Let_def)

lemma plumber_pass_entries:
  assumes "plumber_page_pass u pp fp st = Inr ((es, ves), st')"
  shows "\<exists>sg. es = attach_to_last (described_entries u (plumber_page_number pp)
                     (clean_lines (split_on 10 (the_text (extract_text pp))))) sg
            \<and> (\<forall>sm \<in> set sg. parent_entry_heading sm = heading (last es)
                  \<and> sigil_page_number sm = plumber_page_number pp
                  \<and> extraction_method sm = Direct)
            \<and> saved_files st' = saved_files st @ map image_path sg
            \<and> (es = [] \<longrightarrow> st' = st \<and> sg = [])"
proof -
  define raws where "raws = split_on 10 (the_text (extract_text pp))"
  define pg where "pg = plumber_page_number pp"
  obtain es0 ves0 cur0 where l: "fold_err (plumber_line_step u pp) ([], [], None) raws = Inr (es0, ves0, cur0)"
    using assms unfolding plumber_page_pass_def raws_def
    by (auto split: sum.splits prod.splits)
  have seg: "foldl (\<lambda>st l. segment_line u pg l st) ([], None) (clean_lines raws) = (es0, cur0)"
    using plumber_line_fold_Inr[OF l] by (simp add: pg_def)
  have d: "close_current u es0 cur0 = described_entries u pg (clean_lines raws)"
    using segment_fold[of u pg "[]" None "clean_lines raws"] seg by simp
  obtain cur1 ves1 where c: "foldl (plumber_char_step u pp fp) (cur0, ves0, st) (chars pp) = (cur1, ves1, st')"
    and es: "es = close_current u es0 cur1"
    using assms l unfolding plumber_page_pass_def raws_def
    by (auto split: prod.splits)
  show ?thesis
  proof (cases cur0)
    case None
    then have "es0 = []" using segment_fold_None[of u pg "[]" None "clean_lines raws"] seg by simp
    moreover have "cur1 = None" "st' = st" using c None by (simp_all add: plumber_char_fold_None)
    ultimately show ?thesis
      using d es None unfolding raws_def pg_def
      by (intro exI[of _ "[]"]) (simp add: close_current_def attach_to_last_def)
  next
    case (Some c0)
    from plumber_char_fold_Some[OF c[unfolded Some]] obtain sg where
      sg: "cur1 = Some (c0\<lparr>o_sigils_metadata := o_sigils_metadata c0 @ sg\<rparr>)"
        "\<forall>sm \<in> set sg. parent_entry_heading sm = o_heading c0
                  \<and> sigil_page_number sm = plumber_page_number pp
                  \<and> extraction_method sm = Direct"
        "saved_files st' = saved_files st @ map image_path sg" by blast
    have d': "described_entries u pg (clean_lines raws) = es0 @ [finalize u c0]"
      using d Some by (simp add: close_current_def)
    have es': "es = es0 @ [(finalize u c0)\<lparr>sigils_metadata := sigils_metadata (finalize u c0) @ sg\<rparr>]"
      using es sg(1) by (simp add: close_current_def finalize_sigils)
    have "es = attach_to_last (described_entries u pg (clean_lines raws)) sg"
      unfolding d' es' by (simp add: attach_to_last_def)
    moreover have "heading (last es) = o_heading c0"
      unfolding es' by (simp add: finalize_def Let_def)
    moreover have "es \<noteq> []" unfolding es' by simp
    ultimately show ?thesis
      using sg unfolding raws_def pg_def by (intro exI[of _ sg]) simp
  qed
qed

lemma plumber_page_pass_total:
  "page_lines pp = [] \<Longrightarrow> \<exists>es ves st'. plumber_page_pass u pp fp st = Inr ((es, ves), st')"
proof -
  assume "page_lines pp = []"
  from plumber_line_fold_total[OF this, of u "([], [], None)" "split_on 10 (the_text (extract_text pp))"]
  obtain r where "fold_err (plumber_line_step u pp) ([], [], None)
                    (split_on 10 (the_text (extract_text pp))) = Inr r" by blast
  then show ?thesis
    by (cases r) (simp add: plumber_page_pass_def split: prod.splits)
qed

lemma plumber_page_total:
  "page_lines pp = [] \<Longrightarrow>
     \<exists>es ves st'. extract_elements_from_plumber_page u pp fp st = Inr ((es, ves), st')"
  using plumber_page_pass_total[of pp u fp st]
  by (auto simp: extract_elements_from_plumber_page_def)

lemma plumber_page_raises:
  assumes "page_lines pp \<noteq> []" "clean_lines (split_on 10 (the_text (extract_text pp))) \<noteq> []"
  shows "extract_elements_from_plumber_page u pp fp st = Inl (KeyError (U ''text''))"
proof -
  have "the_text (extract_text pp) \<noteq> []"
    using assms(2) by (auto simp: clean_lines_def strip_def)
  then show ?thesis
    using plumber_line_fold_raises[OF assms(1), of "split_on 10 (the_text (extract_text pp))" u "([], [], None)"] assms(2)
    by (simp add: extract_elements_from_plumber_page_def plumber_page_pass_def)
qed

lemma find_last_all:
  "\<forall>x \<in> set xs. P x \<Longrightarrow> find_last P xs = (if xs = [] then None else Some (length xs - 1))"
  by (induction xs) (auto split: option.splits)

lemma described_entries_page:
  "e \<in> set (described_entries u pg ls) \<Longrightarrow> page_number e = pg"
  by (induction ls) (auto simp: Let_def split: option.splits)

lemma attach_to_last_Nil [simp]: "attach_to_last es [] = es"
  by (simp add: attach_to_last_def)

lemma attach_to_last_empty [simp]: "attach_to_last [] sg = []"
  by (simp add: attach_to_last_def)

lemma attach_to_last_append:
  "attach_to_last (attach_to_last es a) b = attach_to_last es (a @ b)"
  by (simp add: attach_to_last_def)

lemma attach_to_last_page:
  "\<forall>e \<in> set es. page_number e = pg \<Longrightarrow> \<forall>e \<in> set (attach_to_last es sg). page_number e = pg"
  by (cases es rule: rev_cases) (auto simp: attach_to_last_def)

lemma attach_to_last_heading:
  "heading (last (attach_to_last es sg)) = heading (last es)"
  by (cases es rule: rev_cases) (auto simp: attach_to_last_def)

lemma attach_to_last_eq_Nil [simp]: "attach_to_last es sg = [] \<longleftrightarrow> es = []"
  by (simp add: attach_to_last_def)

lemma list_update_last:
  "es \<noteq> [] \<Longrightarrow> es[length es - 1 := y] = butlast es @ [y]"
  by (cases es rule: rev_cases) (auto simp: list_update_append)

lemma nth_last: "es \<noteq> [] \<Longrightarrow> es ! (length es - Suc 0) = last es"
  by (simp add: last_conv_nth)

lemma ocr_row_step_entries:
  assumes "ocr_row_step u fp (es, ves, st) row = (es', ves', st')"
    and pgs: "\<forall>e \<in> set es. page_number e = number fp + 1"
  shows "\<exists>sg. es' = attach_to_last es sg
            \<and> (\<forall>sm \<in> set sg. parent_entry_heading sm = heading (last es)
                  \<and> sigil_page_number sm = number fp + 1
                  \<and> extraction_method sm = Ocr)
            \<and> saved_files st' = saved_files st @ map image_path sg
            \<and> (es = [] \<longrightarrow> st' = st \<and> sg = [])"
proof -
  have fl: "find_last (\<lambda>e. page_number e = Suc (number fp)) es
              = (if es = [] then None else Some (length es - Suc 0))"
    using find_last_all[of es "\<lambda>e. page_number e = Suc (number fp)"] pgs by simp
  have "(es' = es \<and> st' = st) \<or>
        (\<exists>r b t. es \<noteq> [] \<and> save_sigil_image u fp b (heading (last es)) (Suc (number fp)) st = (r, st')
           \<and> (case r of None \<Rightarrow> es' = es
               | Some img_path \<Rightarrow> es' = es[length es - Suc 0 := (last es)\<lparr>sigils_metadata := sigils_metadata (last es) @
                          [\<lparr>image_path = img_path, parent_entry_heading = heading (last es),
                            sigil_page_number = Suc (number fp), source_text = t,
                            bounding_box_pdf_coords = b, extraction_method = Ocr\<rparr>]\<rparr>]))"
  proof (cases "es = []")
    case True
    then show ?thesis using assms(1)
      by (auto simp: ocr_row_step_def Let_def split: if_splits prod.splits option.splits)
  next
    case False
    show ?thesis
    proof (cases "es' = es \<and> st' = st")
      case True
      then show ?thesis by simp
    next
      case ne: False
      let ?b = "pdf_box_of_row row"
      let ?t = "strip (py_str (row_text row))"
      obtain r st2 where sv: "save_sigil_image u fp ?b (heading (last es)) (Suc (number fp)) st = (r, st2)"
        by (cases "save_sigil_image u fp ?b (heading (last es)) (Suc (number fp)) st") auto
      have "st' = st2 \<and> (case r of None \<Rightarrow> es' = es
               | Some img_path \<Rightarrow> es' = es[length es - Suc 0 := (last es)\<lparr>sigils_metadata := sigils_metadata (last es) @
                          [\<lparr>image_path = img_path, parent_entry_heading = heading (last es),
                            sigil_page_number = Suc (number fp), source_text = ?t,
                            bounding_box_pdf_coords = ?b, extraction_method = Ocr\<rparr>]\<rparr>])"
        using assms(1) ne False fl sv
        by (auto simp: ocr_row_step_def Let_def nth_last split: if_splits option.splits)
      then show ?thesis using False sv by blast
    qed
  qed
  then consider (same) "es' = es" "st' = st"
    | (attempt) r b t where "es \<noteq> []"
        "save_sigil_image u fp b (heading (last es)) (Suc (number fp)) st = (r, st')"
        "case r of None \<Rightarrow> es' = es
         | Some img_path \<Rightarrow> es' = es[length es - Suc 0 := (last es)\<lparr>sigils_metadata := sigils_metadata (last es) @
                          [\<lparr>image_path = img_path, parent_entry_heading = heading (last es),
                            sigil_page_number = Suc (number fp), source_text = t,
                            bounding_box_pdf_coords = b, extraction_method = Ocr\<rparr>]\<rparr>]"
    by blast
  then show ?thesis
  proof cases
    case same
    then show ?thesis by (intro exI[of _ "[]"]) simp
  next
    case attempt
    show ?thesis
    proof (cases r)
      case None
      then show ?thesis using attempt save_sigil_image_cases[OF attempt(2)]
        by (intro exI[of _ "[]"]) simp
    next
      case (Some path)
      then show ?thesis using attempt save_sigil_image_cases[OF attempt(2)] list_update_last[OF attempt(1)]
        by (intro exI[of _ "[\<lparr>image_path = path, parent_entry_heading = heading (last es),
                            sigil_page_number = Suc (number fp), source_text = t,
                            bounding_box_pdf_coords = b, extraction_method = Ocr\<rparr>]"])
           (simp add: attach_to_last_def)
    qed
  qed
qed

lemma ocr_row_fold_entries:
  assumes "foldl (ocr_row_step u fp) (es, ves, st) rows = (es', ves', st')"
    and pgs: "\<forall>e \<in> set es. page_number e = number fp + 1"
  shows "\<exists>sg. es' = attach_to_last es sg
            \<and> (\<forall>sm \<in> set sg. parent_entry_heading sm = heading (last es)
                  \<and> sigil_page_number sm = number fp + 1
                  \<and> extraction_method sm = Ocr)
            \<and> saved_files st' = saved_files st @ map image_path sg
            \<and> (es = [] \<longrightarrow> st' = st \<and> sg = [])"
  using assms
proof (induction rows arbitrary: es ves st)
  case Nil
  then show ?case by (intro exI[of _ "[]"]) simp
next
  case (Cons row rows)
  obtain es1 ves1 st1 where s: "ocr_row_step u fp (es, ves, st) row = (es1, ves1, st1)"
    by (cases "ocr_row_step u fp (es, ves, st) row") auto
  from ocr_row_step_entries[OF s Cons.prems(2)] obtain sg1 where
    sg1: "es1 = attach_to_last es sg1"
      "\<forall>sm \<in> set sg1. parent_entry_heading sm = heading (last es)
                  \<and> sigil_page_number sm = number fp + 1 \<and> extraction_method sm = Ocr"
      "saved_files st1 = saved_files st @ map image_path sg1"
      "es = [] \<longrightarrow> st1 = st \<and> sg1 = []" by blast
  have pg1: "\<forall>e \<in> set es1. page_number e = number fp + 1"
    unfolding sg1(1) using attach_to_last_page[OF Cons.prems(2)] by blast
  from Cons.prems(1) s have "foldl (ocr_row_step u fp) (es1, ves1, st1) rows = (es', ves', st')"
    by simp
  from Cons.IH[OF this pg1] obtain sg2 where
    sg2: "es' = attach_to_last es1 sg2"
      "\<forall>sm \<in> set sg2. parent_entry_heading sm = heading (last es1)
                  \<and> sigil_page_number sm = number fp + 1 \<and> extraction_method sm = Ocr"
      "saved_files st' = saved_files st1 @ map image_path sg2"
      "es1 = [] \<longrightarrow> st' = st1 \<and> sg2 = []" by blast
  show ?case
    using sg1 sg2
    by (intro exI[of _ "sg1 @ sg2"]) (auto simp: attach_to_last_append attach_to_last_heading)
qed

lemma ocr_row_step_visual:
  "ocr_row_step u fp (es, ves, st) row = (es', ves', st')
     \<Longrightarrow> map rect ves' = map rect ves @ (if blank_row row then [] else [ocr_row_box row])"
  by (auto simp: ocr_row_step_def Let_def blank_row_def ocr_row_box_def
           split: if_splits prod.splits option.splits)

lemma ocr_row_fold_visual:
  "foldl (ocr_row_step u fp) (es, ves, st) rows = (es', ves', st')
     \<Longrightarrow> map rect ves' = map rect ves @ map ocr_row_box (filter (\<lambda>r. \<not> blank_row r) rows)"
proof (induction rows arbitrary: es ves st)
  case Nil
  then show ?case by simp
next
  case (Cons row rows)
  obtain es1 ves1 st1 where s: "ocr_row_step u fp (es, ves, st) row = (es1, ves1, st1)"
    by (cases "ocr_row_step u fp (es, ves, st) row") auto
  from Cons.prems s have "foldl (ocr_row_step u fp) (es1, ves1, st1) rows = (es', ves', st')"
    by simp
  from Cons.IH[OF this] ocr_row_step_visual[OF s] show ?case by simp
qed

lemma ocr_entries:
  assumes "ocr_data fp = Some table"
    and "extract_elements_with_ocr u fp st = ((es, ves), st')"
  shows "\<exists>sg. es = attach_to_last (described_entries u (number fp + 1)
                     (clean_lines (ocr_lines (filter (\<lambda>r. conf r > - 1) table)))) sg
            \<and> (\<forall>sm \<in> set sg. parent_entry_heading sm = heading (last es)
                  \<and> sigil_page_number sm = number fp + 1
                  \<and> extraction_method sm = Ocr)
            \<and> saved_files st' = saved_files st @ map image_path sg
            \<and> (es = [] \<longrightarrow> st' = st \<and> sg = [])
            \<and> map rect ves = map ocr_row_box
                 (filter (\<lambda>r. \<not> blank_row r) (filter (\<lambda>r. conf r > - 1) table))"
proof -
  define rows where "rows = filter (\<lambda>r. conf r > - 1) table"
  define pg where "pg = number fp + 1"
  define seg where "seg = foldl (ocr_line_step u pg) ([], None) (ocr_lines rows)"
  have d: "close_current u (fst seg) (snd seg) = described_entries u pg (clean_lines (ocr_lines rows))"
    unfolding seg_def ocr_line_fold
    using segment_fold[of u pg "[]" None "clean_lines (ocr_lines rows)"] by simp
  have f: "foldl (ocr_row_step u fp) (described_entries u pg (clean_lines (ocr_lines rows)), [], st) rows
             = (es, ves, st')"
    using assms d unfolding extract_elements_with_ocr_def rows_def pg_def seg_def
    by (auto simp: Let_def split: prod.splits)
  have pgs: "\<forall>e \<in> set (described_entries u pg (clean_lines (ocr_lines rows))). page_number e = number fp + 1"
    using described_entries_page[of _ u pg] by (auto simp: pg_def)
  from ocr_row_fold_entries[OF f pgs] ocr_row_fold_visual[OF f]
  show ?thesis
    unfolding rows_def pg_def by (auto simp: attach_to_last_heading)
qed

section \<open>Entries of a page and the two scenarios\<close>

declare str_of_nat.simps [simp del]
declare finditer_from.simps [simp del]

lemmas run_defs =
  segment_line_def close_current_def finalize_def extract_references_def re_finditer_def
  re_search_def clean_lines_def is_heading_line_def finditer_from.simps Let_def

lemma without_sigils_attach:
  "\<forall>e \<in> set es. sigils_metadata e = [] \<Longrightarrow> map without_sigils (attach_to_last es sg) = es"
  by (cases es rule: rev_cases) (auto simp: attach_to_last_def without_sigils_def map_idI)

lemma described_entries_no_sigils:
  "e \<in> set (described_entries u pg ls) \<Longrightarrow> sigils_metadata e = []"
  by (induction ls) (auto simp: Let_def split: option.splits)

lemma plumber_page_Inr:
  assumes "extract_elements_from_plumber_page u pp fp st = Inr ((es, ves), st')"
    and "the_text (extract_text pp) \<noteq> []"
  shows "\<exists>ves0. plumber_page_pass u pp fp st = Inr ((es, ves0), st') \<and> ves = unique_by_rect {} ves0"
  using assms
  by (auto simp: extract_elements_from_plumber_page_def split: sum.splits prod.splits)

lemma plumber_entries_described:
  assumes "the_text (extract_text pp) \<noteq> []" "page_lines pp = []"
  shows "\<exists>es ves st'. extract_elements_from_plumber_page u pp fp st = Inr ((es, ves), st')
           \<and> map without_sigils es = described_entries u (plumber_page_number pp)
                (clean_lines (split_on 10 (the_text (extract_text pp))))"
proof -
  from plumber_page_total[OF assms(2), of u fp st] obtain es ves st' where
    r: "extract_elements_from_plumber_page u pp fp st = Inr ((es, ves), st')" by blast
  from plumber_page_Inr[OF r assms(1)] obtain ves0 where
    p: "plumber_page_pass u pp fp st = Inr ((es, ves0), st')" by blast
  from plumber_pass_entries[OF p] obtain sg where
    "es = attach_to_last (described_entries u (plumber_page_number pp)
                     (clean_lines (split_on 10 (the_text (extract_text pp))))) sg" by blast
  then have "map without_sigils es = described_entries u (plumber_page_number pp)
             (clean_lines (split_on 10 (the_text (extract_text pp))))"
    using without_sigils_attach described_entries_no_sigils by blast
  then show ?thesis using r by blast
qed

lemma ocr_entries_described:
  assumes "ocr_data fp = Some table"
  shows "map without_sigils (fst (fst (extract_elements_with_ocr u fp st)))
         = described_entries u (number fp + 1)
             (clean_lines (ocr_lines (filter (\<lambda>r. conf r > - 1) table)))"
proof -
  obtain es ves st' where p: "extract_elements_with_ocr u fp st = ((es, ves), st')"
    by (cases "extract_elements_with_ocr u fp st") auto
  from ocr_entries[OF assms p] obtain sg where
    "es = attach_to_last (described_entries u (number fp + 1)
                     (clean_lines (ocr_lines (filter (\<lambda>r. conf r > - 1) table)))) sg" by blast
  then have "map without_sigils es = described_entries u (number fp + 1)
                     (clean_lines (ocr_lines (filter (\<lambda>r. conf r > - 1) table)))"
    using without_sigils_attach described_entries_no_sigils by blast
  then show ?thesis using p by simp
qed

lemma abracadabra_described:
  "described_entries u pg
     (clean_lines [U ''ABRACADABRA Sym. A mystical word of power. Agrippa 1533.''])
   = [\<lparr>heading = U ''ABRACADABRA'', entry_class = U ''Sym.'', sigils_metadata = [],
       description = U ''A mystical word of power. Agrippa 1533.'',
       references_raw = [U ''Agrippa 1533''], page_number = pg\<rparr>]"
  by (simp add: pattern_defs match_defs run_defs)

lemma foo_bar_described:
  "described_entries u pg
     (clean_lines [U ''FOO Abc. first line'', U ''second line'', U ''BAR Def. third line''])
   = [\<lparr>heading = U ''FOO'', entry_class = U ''Abc.'', sigils_metadata = [],
       description = U ''first line second line'', references_raw = [], page_number = pg\<rparr>,
      \<lparr>heading = U ''BAR'', entry_class = U ''Def.'', sigils_metadata = [],
       description = U ''third line'', references_raw = [], page_number = pg\<rparr>]"
  by (simp add: pattern_defs match_defs run_defs)

lemma ruled_page_raises:
  "extract_elements_from_plumber_page u
     ((text_page (U ''FOO Abc. x'') [])\<lparr>page_lines := [\<lparr>l_x0 = 0, l_top = 50, l_x1 = 500, l_bottom = 50\<rparr>]\<rparr>)
     fp st
   = Inl (KeyError (U ''text''))"
  by (rule plumber_page_raises)
     (simp_all add: text_page_def the_text_def clean_lines_def U_def match_defs isspace_def
                    in_range_def)

text \<open>
  C7. A page whose only line is \<open>ABRACADABRA Sym. A mystical word of power. Agrippa 1533.\<close>
  yields exactly one entry, under either strategy: heading \<open>ABRACADABRA\<close>, class
  \<open>Sym.\<close>, the rest of the line as description and the single reference
  \<open>Agrippa 1533\<close>. For the vector strategy the page is one without drawn lines: with a
  drawn line on it the lookup of line 526 raises before any entry is made.
\<close>

theorem abracadabra_entry:
  "(extract_text pp = Some (U ''ABRACADABRA Sym. A mystical word of power. Agrippa 1533.'')
      \<and> page_lines pp = []
      \<longrightarrow> (\<exists>es ves st'. extract_elements_from_plumber_page u pp fp st = Inr ((es, ves), st')
             \<and> map without_sigils es
                = [\<lparr>heading = U ''ABRACADABRA'', entry_class = U ''Sym.'', sigils_metadata = [],
                    description = U ''A mystical word of power. Agrippa 1533.'',
                    references_raw = [U ''Agrippa 1533''],
                    page_number = plumber_page_number pp\<rparr>]))
   \<and> (ocr_data fp = Some table
       \<and> ocr_lines (filter (\<lambda>r. conf r > - 1) table)
           = [U ''ABRACADABRA Sym. A mystical word of power. Agrippa 1533.'']
      \<longrightarrow> map without_sigils (fst (fst (extract_elements_with_ocr u fp st)))
          = [\<lparr>heading = U ''ABRACADABRA'', entry_class = U ''Sym.'', sigils_metadata = [],
              description = U ''A mystical word of power. Agrippa 1533.'',
              references_raw = [U ''Agrippa 1533''], page_number = number fp + 1\<rparr>])"
proof (intro conjI impI)
  assume a: "extract_text pp = Some (U ''ABRACADABRA Sym. A mystical word of power. Agrippa 1533.'')
      \<and> page_lines pp = []"
  then have t: "extract_text pp = Some (U ''ABRACADABRA Sym. A mystical word of power. Agrippa 1533.'')"
    and nl: "page_lines pp = []" by simp_all
  have ne: "the_text (extract_text pp) \<noteq> []" using t by (simp add: the_text_def U_def)
  have sp: "split_on 10 (the_text (extract_text pp))
              = [U ''ABRACADABRA Sym. A mystical word of power. Agrippa 1533.'']"
    using t by (simp add: the_text_def U_def)
  show "\<exists>es ves st'. extract_elements_from_plumber_page u pp fp st = Inr ((es, ves), st')
             \<and> map without_sigils es
                = [\<lparr>heading = U ''ABRACADABRA'', entry_class = U ''Sym.'', sigils_metadata = [],
                    description = U ''A mystical word of power. Agrippa 1533.'',
                    references_raw = [U ''Agrippa 1533''],
                    page_number = plumber_page_number pp\<rparr>]"
    using plumber_entries_described[OF ne nl, of u fp st]
    unfolding sp abracadabra_described .
next
  assume a: "ocr_data fp = Some table
       \<and> ocr_lines (filter (\<lambda>r. conf r > - 1) table)
           = [U ''ABRACADABRA Sym. A mystical word of power. Agrippa 1533.'']"
  then have o: "ocr_data fp = Some table" by simp
  show "map without_sigils (fst (fst (extract_elements_with_ocr u fp st)))
          = [\<lparr>heading = U ''ABRACADABRA'', entry_class = U ''Sym.'', sigils_metadata = [],
              description = U ''A mystical word of power. Agrippa 1533.'',
              references_raw = [U ''Agrippa 1533''], page_number = number fp + 1\<rparr>]"
    unfolding ocr_entries_described[OF o] using a abracadabra_described by simp
qed

lemma abra_lines:
  "ocr_lines (filter (\<lambda>r. conf r > - 1) abra_table)
     = [U ''ABRACADABRA Sym. A mystical word of power. Agrippa 1533.'']"
  by (simp add: abra_table_def word_row_def ocr_lines_def ocr_word_step_def py_str_def
                match_defs isspace_def in_range_def)

theorem abracadabra_entry_witness:
  "extract_text (text_page (U ''ABRACADABRA Sym. A mystical word of power. Agrippa 1533.'') [])
     = Some (U ''ABRACADABRA Sym. A mystical word of power. Agrippa 1533.'')
   \<and> page_lines (text_page (U ''ABRACADABRA Sym. A mystical word of power. Agrippa 1533.'') []) = []
   \<and> ocr_data (plain_fitz_page (Some abra_table)) = Some abra_table
   \<and> ocr_lines (filter (\<lambda>r. conf r > - 1) abra_table)
       = [U ''ABRACADABRA Sym. A mystical word of power. Agrippa 1533.'']
   \<and> (\<exists>es ves st'. extract_elements_from_plumber_page ascii_platform
          (text_page (U ''ABRACADABRA Sym. A mystical word of power. Agrippa 1533.'') [])
          (plain_fitz_page (Some abra_table)) fresh_state = Inr ((es, ves), st')
        \<and> map heading es = [U ''ABRACADABRA'']
        \<and> map references_raw es = [[U ''Agrippa 1533'']])
   \<and> map heading (fst (fst (extract_elements_with_ocr ascii_platform
        (plain_fitz_page (Some abra_table)) fresh_state))) = [U ''ABRACADABRA'']
   \<and> map description (fst (fst (extract_elements_with_ocr ascii_platform
        (plain_fitz_page (Some abra_table)) fresh_state)))
       = [U ''A mystical word of power. Agrippa 1533.'']"
proof -
  let ?pp = "text_page (U ''ABRACADABRA Sym. A mystical word of power. Agrippa 1533.'') []"
  let ?fp = "plain_fitz_page (Some abra_table)"
  have t: "extract_text ?pp = Some (U ''ABRACADABRA Sym. A mystical word of power. Agrippa 1533.'')"
    and nl: "page_lines ?pp = []"
    by (simp_all add: text_page_def)
  have o: "ocr_data ?fp = Some abra_table" by (simp add: plain_fitz_page_def)
  have h: "map heading (map without_sigils es) = map heading es"
       "map references_raw (map without_sigils es) = map references_raw es"
       "map description (map without_sigils es) = map description es" for es
    by (simp_all add: without_sigils_def)
  note inst = abracadabra_entry[of ?pp ascii_platform ?fp fresh_state abra_table]
  from inst[THEN conjunct1, rule_format, OF conjI[OF t nl]] obtain es ves st' where
    r: "extract_elements_from_plumber_page ascii_platform ?pp ?fp fresh_state = Inr ((es, ves), st')"
    and e: "map without_sigils es
            = [\<lparr>heading = U ''ABRACADABRA'', entry_class = U ''Sym.'', sigils_metadata = [],
                description = U ''A mystical word of power. Agrippa 1533.'',
                references_raw = [U ''Agrippa 1533''], page_number = plumber_page_number ?pp\<rparr>]"
    by (elim exE conjE)
  from inst[THEN conjunct2, rule_format, OF conjI[OF o abra_lines]] have
    oe: "map without_sigils (fst (fst (extract_elements_with_ocr ascii_platform ?fp fresh_state)))
          = [\<lparr>heading = U ''ABRACADABRA'', entry_class = U ''Sym.'', sigils_metadata = [],
              description = U ''A mystical word of power. Agrippa 1533.'',
              references_raw = [U ''Agrippa 1533''], page_number = number ?fp + 1\<rparr>]"
    by blast
  have v: "map heading es = [U ''ABRACADABRA'']" "map references_raw es = [[U ''Agrippa 1533'']]"
    using arg_cong[OF e, of "map heading"] arg_cong[OF e, of "map references_raw"]
    unfolding h by simp_all
  have w: "map heading (fst (fst (extract_elements_with_ocr ascii_platform ?fp fresh_state)))
             = [U ''ABRACADABRA'']"
          "map description (fst (fst (extract_elements_with_ocr ascii_platform ?fp fresh_state)))
             = [U ''A mystical word of power. Agrippa 1533.'']"
    using arg_cong[OF oe, of "map heading"] arg_cong[OF oe, of "map description"]
    unfolding h by simp_all
  show ?thesis
    by (intro conjI exI; (rule t nl o abra_lines r v w))
qed

text \<open>
  C8. A page with the lines \<open>FOO Abc. first line\<close>, \<open>second line\<close>,
  \<open>BAR Def. third line\<close> yields the entries FOO, described by
  \<open>first line second line\<close>, and BAR, described by \<open>third line\<close>, in this order and on
  the page's number. In general, under either strategy, the entries of a page are, up to
  the sigils attached to them, the described entries of its stripped non-empty lines:
  one per heading line, the description being the text after the tag and the following
  lines up to the next heading line, in order, joined with single spaces and stripped.
  For the vector strategy the page is one without drawn lines.
\<close>

theorem description_joins_lines:
  "(extract_text pp = Some (U ''FOO Abc. first line'' @ [10] @ U ''second line'' @ [10]
                             @ U ''BAR Def. third line'')
      \<and> page_lines pp = []
      \<longrightarrow> (\<exists>es ves st'. extract_elements_from_plumber_page u pp fp st = Inr ((es, ves), st')
             \<and> map without_sigils es
                = [\<lparr>heading = U ''FOO'', entry_class = U ''Abc.'', sigils_metadata = [],
                    description = U ''first line second line'', references_raw = [],
                    page_number = plumber_page_number pp\<rparr>,
                   \<lparr>heading = U ''BAR'', entry_class = U ''Def.'', sigils_metadata = [],
                    description = U ''third line'', references_raw = [],
                    page_number = plumber_page_number pp\<rparr>]))
   \<and> (the_text (extract_text pp) \<noteq> [] \<and> page_lines pp = []
      \<longrightarrow> (\<exists>es ves st'. extract_elements_from_plumber_page u pp fp st = Inr ((es, ves), st')
             \<and> map without_sigils es
                = described_entries u (plumber_page_number pp)
                    (clean_lines (split_on 10 (the_text (extract_text pp))))))
   \<and> (ocr_data fp = Some table
      \<longrightarrow> map without_sigils (fst (fst (extract_elements_with_ocr u fp st)))
          = described_entries u (number fp + 1)
              (clean_lines (ocr_lines (filter (\<lambda>r. conf r > - 1) table))))"
proof (intro conjI impI)
  assume a: "extract_text pp = Some (U ''FOO Abc. first line'' @ [10] @ U ''second line'' @ [10]
                             @ U ''BAR Def. third line'') \<and> page_lines pp = []"
  then have t: "extract_text pp = Some (U ''FOO Abc. first line'' @ [10] @ U ''second line'' @ [10]
                             @ U ''BAR Def. third line'')"
    and nl: "page_lines pp = []" by simp_all
  have ne: "the_text (extract_text pp) \<noteq> []" using t by (simp add: the_text_def U_def)
  have sp: "split_on 10 (the_text (extract_text pp))
              = [U ''FOO Abc. first line'', U ''second line'', U ''BAR Def. third line'']"
    using t by (simp add: the_text_def U_def)
  show "\<exists>es ves st'. extract_elements_from_plumber_page u pp fp st = Inr ((es, ves), st')
             \<and> map without_sigils es
                = [\<lparr>heading = U ''FOO'', entry_class = U ''Abc.'', sigils_metadata = [],
                    description = U ''first line second line'', references_raw = [],
                    page_number = plumber_page_number pp\<rparr>,
                   \<lparr>heading = U ''BAR'', entry_class = U ''Def.'', sigils_metadata = [],
                    description = U ''third line'', references_raw = [],
                    page_number = plumber_page_number pp\<rparr>]"
    using plumber_entries_described[OF ne nl, of u fp st]
    unfolding sp foo_bar_described .
next
  assume "the_text (extract_text pp) \<noteq> [] \<and> page_lines pp = []"
  then show "\<exists>es ves st'. extract_elements_from_plumber_page u pp fp st = Inr ((es, ves), st')
             \<and> map without_sigils es
                = described_entries u (plumber_page_number pp)
                    (clean_lines (split_on 10 (the_text (extract_text pp))))"
    using plumber_entries_described by blast
next
  assume "ocr_data fp = Some table"
  then show "map without_sigils (fst (fst (extract_elements_with_ocr u fp st)))
          = described_entries u (number fp + 1)
              (clean_lines (ocr_lines (filter (\<lambda>r. conf r > - 1) table)))"
    by (rule ocr_entries_described)
qed

theorem description_joins_lines_witness:
  "extract_text (text_page (U ''FOO Abc. first line'' @ [10] @ U ''second line'' @ [10]
                             @ U ''BAR Def. third line'') [])
     = Some (U ''FOO Abc. first line'' @ [10] @ U ''second line'' @ [10]
                             @ U ''BAR Def. third line'')
   \<and> page_lines (text_page (U ''FOO Abc. first line'' @ [10] @ U ''second line'' @ [10]
                             @ U ''BAR Def. third line'') []) = []
   \<and> (\<exists>es ves st'. extract_elements_from_plumber_page ascii_platform
          (text_page (U ''FOO Abc. first line'' @ [10] @ U ''second line'' @ [10]
                             @ U ''BAR Def. third line'') [])
          (plain_fitz_page None) fresh_state = Inr ((es, ves), st')
        \<and> map heading es = [U ''FOO'', U ''BAR'']
        \<and> map description es = [U ''first line second line'', U ''third line''])"
proof -
  let ?pp = "text_page (U ''FOO Abc. first line'' @ [10] @ U ''second line'' @ [10]
                             @ U ''BAR Def. third line'') []"
  have t: "extract_text ?pp = Some (U ''FOO Abc. first line'' @ [10] @ U ''second line'' @ [10]
                             @ U ''BAR Def. third line'')"
    and nl: "page_lines ?pp = []"
    by (simp_all add: text_page_def)
  have h: "map description (map without_sigils es) = map description es"
          "map heading (map without_sigils es) = map heading es" for es
    by (simp_all add: without_sigils_def)
  from description_joins_lines[of ?pp ascii_platform "plain_fitz_page None" fresh_state,
         THEN conjunct1, rule_format, OF conjI[OF t nl]]
  obtain es ves st' where
    r: "extract_elements_from_plumber_page ascii_platform ?pp (plain_fitz_page None) fresh_state
          = Inr ((es, ves), st')"
    and e: "map without_sigils es
          = [\<lparr>heading = U ''FOO'', entry_class = U ''Abc.'', sigils_metadata = [],
              description = U ''first line second line'', references_raw = [],
              page_number = plumber_page_number ?pp\<rparr>,
             \<lparr>heading = U ''BAR'', entry_class = U ''Def.'', sigils_metadata = [],
              description = U ''third line'', references_raw = [],
              page_number = plumber_page_number ?pp\<rparr>]"
    by (elim exE conjE)
  have v: "map heading es = [U ''FOO'', U ''BAR'']"
          "map description es = [U ''first line second line'', U ''third line'']"
    using arg_cong[OF e, of "map heading"] arg_cong[OF e, of "map description"]
    unfolding h by simp_all
  show ?thesis
    by (intro conjI exI; (rule t nl r v))
qed

section \<open>Where glyphs are attached\<close>

lemmas ocr_run_defs =
  extract_elements_with_ocr_def ocr_lines_def ocr_word_step_def ocr_line_step_def
  ocr_row_step_def pdf_box_of_row_def is_heading_word_def fdiv_def
  py_str_def isna_def zoom_x_def zoom_y_def save_sigil_image_def
  img_path_of_def img_filename_def clean_heading_def OUTPUT_IMAGE_DIR_def str_of_nat.simps
  word_row_def plain_fitz_page_def good_pixmap_def fresh_state_def ascii_platform_def
  two_entry_table_def


lemma attach_to_last_sigils:
  "\<forall>e \<in> set es. sigils_metadata e = [] \<Longrightarrow> es \<noteq> []
     \<Longrightarrow> sigils_metadata (last (attach_to_last es sg)) = sg"
  by (cases es rule: rev_cases) (auto simp: attach_to_last_def)

lemmas plumber_run_defs =
  extract_elements_from_plumber_page_def plumber_page_pass_def plumber_line_step_def
  find_line_bbox_def plumber_char_step_def vector_candidate_def str_isalnum_def
  str_isspace_def COMMON_PUNCTUATION_def padded_bbox_of_def pymupdf_Rect_def fsub_def fadd_def
  fdiv_def bbox_rejected_def rect_width_def rect_height_def
  rect_tuple_def box_of_def biblio_word_elements_def the_text_def text_page_def
  star_page_def star_char_def











section \<open>Glyph candidates\<close>

lemma strip_last_not_space: "strip t \<noteq> [] \<Longrightarrow> \<not> isspace (last (strip t))"
proof -
  assume a: "strip t \<noteq> []"
  define ys where "ys = rev (dropWhile isspace t)"
  have s: "strip t = rev (dropWhile isspace ys)" by (simp add: strip_def ys_def)
  with a have ne: "dropWhile isspace ys \<noteq> []" by simp
  have "last (strip t) = hd (dropWhile isspace ys)" using s ne by (simp add: last_rev)
  then show ?thesis using hd_dropWhile[OF ne] by simp
qed

lemma rmatch_Eol_mem:
  "m \<in> set (rmatch Eol (i, s, c)) \<longleftrightarrow> (s = [] \<or> s = [10]) \<and> m = (i, s, c)"
  by auto

lemma potential_symbol_mem:
  "m \<in> set (rmatch (POTENTIAL_SYMBOL_RE_OCR u) (0, s, [])) \<longleftrightarrow>
     (\<exists>xs r. s = xs @ r \<and> 1 \<le> length xs \<and> length xs \<le> 5 \<and> list_all (ocr_symbol_char u) xs
        \<and> (r = [] \<or> r = [10]) \<and> m = (length xs, r, []))"
proof
  assume "m \<in> set (rmatch (POTENTIAL_SYMBOL_RE_OCR u) (0, s, []))"
  then have "\<exists>st0 \<in> set (rmatch Bol (0, s, [])).
        m \<in> set (rmatch (Cat (Rep True 1 (Some 5) (ocr_symbol_char u)) Eol) st0)"
    unfolding POTENTIAL_SYMBOL_RE_OCR_def rmatch_Cat_mem[of m Bol] .
  then have "m \<in> set (rmatch (Cat (Rep True 1 (Some 5) (ocr_symbol_char u)) Eol) (0, s, []))"
    unfolding rmatch_Bol0 by blast
  then obtain st1 where a: "st1 \<in> set (rmatch (Rep True 1 (Some 5) (ocr_symbol_char u)) (0, s, []))"
    and b: "m \<in> set (rmatch Eol st1)"
    unfolding rmatch_Cat_mem by blast
  from a obtain xs r where xs: "s = xs @ r" "1 \<le> length xs" "list_all (ocr_symbol_char u) xs"
    "length xs \<le> 5" "st1 = (length xs, r, [])"
    unfolding rmatch_Rep_mem by auto
  from b have "(r = [] \<or> r = [10]) \<and> m = (length xs, r, [])"
    unfolding xs(5) rmatch_Eol_mem .
  then show "\<exists>xs r. s = xs @ r \<and> 1 \<le> length xs \<and> length xs \<le> 5 \<and> list_all (ocr_symbol_char u) xs
        \<and> (r = [] \<or> r = [10]) \<and> m = (length xs, r, [])"
    using xs by blast
next
  assume "\<exists>xs r. s = xs @ r \<and> 1 \<le> length xs \<and> length xs \<le> 5 \<and> list_all (ocr_symbol_char u) xs
        \<and> (r = [] \<or> r = [10]) \<and> m = (length xs, r, [])"
  then obtain xs r where xs: "s = xs @ r" "1 \<le> length xs" "length xs \<le> 5"
    "list_all (ocr_symbol_char u) xs" "r = [] \<or> r = [10]" "m = (length xs, r, [])" by blast
  have a: "(length xs, r, []) \<in> set (rmatch (Rep True 1 (Some 5) (ocr_symbol_char u)) (0, s, []))"
    unfolding rmatch_Rep_mem using xs by (intro exI[of _ xs] exI[of _ r]) auto
  have b: "m \<in> set (rmatch Eol (length xs, r, []))"
    unfolding rmatch_Eol_mem using xs by simp
  have "m \<in> set (rmatch (Cat (Rep True 1 (Some 5) (ocr_symbol_char u)) Eol) (0, s, []))"
    unfolding rmatch_Cat_mem using a b by blast
  then show "m \<in> set (rmatch (POTENTIAL_SYMBOL_RE_OCR u) (0, s, []))"
    unfolding POTENTIAL_SYMBOL_RE_OCR_def rmatch_Cat_mem[of m Bol] rmatch_Bol0 by blast
qed

lemma potential_symbol_stripped:
  "re_match (POTENTIAL_SYMBOL_RE_OCR u) (strip t) \<noteq> None \<longleftrightarrow>
     1 \<le> length (strip t) \<and> length (strip t) \<le> 5 \<and> list_all (ocr_symbol_char u) (strip t)"
proof -
  have "re_match (POTENTIAL_SYMBOL_RE_OCR u) (strip t) \<noteq> None \<longleftrightarrow>
        (\<exists>xs r. strip t = xs @ r \<and> 1 \<le> length xs \<and> length xs \<le> 5
           \<and> list_all (ocr_symbol_char u) xs \<and> (r = [] \<or> r = [10]))"
    unfolding re_match_not_None potential_symbol_mem by blast
  also have "\<dots> \<longleftrightarrow> 1 \<le> length (strip t) \<and> length (strip t) \<le> 5
                 \<and> list_all (ocr_symbol_char u) (strip t)"
  proof
    assume "\<exists>xs r. strip t = xs @ r \<and> 1 \<le> length xs \<and> length xs \<le> 5
           \<and> list_all (ocr_symbol_char u) xs \<and> (r = [] \<or> r = [10])"
    then obtain xs r where x: "strip t = xs @ r" "1 \<le> length xs" "length xs \<le> 5"
      "list_all (ocr_symbol_char u) xs" "r = [] \<or> r = [10]" by blast
    have "r \<noteq> [10]"
    proof
      assume "r = [10]"
      then have "strip t \<noteq> []" "last (strip t) = 10" using x(1) by simp_all
      moreover have "isspace 10" by (simp add: isspace_def in_range_def)
      ultimately show False using strip_last_not_space[of t] by simp
    qed
    then have "r = []" using x(5) by blast
    then show "1 \<le> length (strip t) \<and> length (strip t) \<le> 5
                 \<and> list_all (ocr_symbol_char u) (strip t)" using x by simp
  next
    assume "1 \<le> length (strip t) \<and> length (strip t) \<le> 5
                 \<and> list_all (ocr_symbol_char u) (strip t)"
    then show "\<exists>xs r. strip t = xs @ r \<and> 1 \<le> length xs \<and> length xs \<le> 5
           \<and> list_all (ocr_symbol_char u) xs \<and> (r = [] \<or> r = [10])"
      by (intro exI[of _ "strip t"] exI[of _ "[]"]) simp
  qed
  finally show ?thesis .
qed

lemma vector_candidate_iff:
  "vector_candidate u t \<longleftrightarrow>
     (\<exists>c. t = [c] \<and> \<not> isalnum u c \<and> \<not> isspace c \<and> c \<notin> set ocr_excluded_punct \<and> c \<noteq> 45 \<and> c \<noteq> 47)"
proof -
  have "length t = 1 \<longleftrightarrow> (\<exists>c. t = [c])" by (cases t) auto
  then show ?thesis
    by (auto simp: vector_candidate_def str_isalnum_def str_isspace_def COMMON_PUNCTUATION_def
                   ocr_excluded_punct_def)
qed

text \<open>
  C6 (as amended). The raster rule accepts a stripped token exactly when it has one to
  five characters none of which is white space, a word character (alphanumeric or the
  underscore) or one of \<open>. , ; : ' " ( ) [ ] ? !\<close>. The vector rule accepts a text exactly
  when it is a single character that is not alphanumeric, not white space, not in that
  punctuation set and neither the hyphen nor the slash, since the vector rule's
  punctuation list contains both. So a single hyphen or slash is a candidate under the
  raster rule and is not one under the vector rule.
\<close>

theorem glyph_candidate_rules:
  "(re_match (POTENTIAL_SYMBOL_RE_OCR u) (strip t) \<noteq> None \<longleftrightarrow>
      1 \<le> length (strip t) \<and> length (strip t) \<le> 5
      \<and> list_all (\<lambda>c. \<not> isspace c \<and> \<not> isalnum u c \<and> c \<noteq> 95 \<and> c \<notin> set ocr_excluded_punct)
                  (strip t))
   \<and> (vector_candidate u t \<longleftrightarrow>
        (\<exists>c. t = [c] \<and> \<not> isalnum u c \<and> \<not> isspace c \<and> c \<notin> set ocr_excluded_punct
              \<and> c \<noteq> 45 \<and> c \<noteq> 47))
   \<and> re_match (POTENTIAL_SYMBOL_RE_OCR u) (U ''-'') \<noteq> None
   \<and> re_match (POTENTIAL_SYMBOL_RE_OCR u) (U ''/'') \<noteq> None
   \<and> \<not> vector_candidate u (U ''-'') \<and> \<not> vector_candidate u (U ''/'')"
proof -
  have c: "(\<lambda>c. \<not> isspace c \<and> \<not> isalnum u c \<and> c \<noteq> 95 \<and> c \<notin> set ocr_excluded_punct)
             = ocr_symbol_char u"
    by (auto simp: ocr_symbol_char_def isword_def fun_eq_iff)
  have r: "re_match (POTENTIAL_SYMBOL_RE_OCR u) (U ''-'') \<noteq> None"
          "re_match (POTENTIAL_SYMBOL_RE_OCR u) (U ''/'') \<noteq> None"
    by (simp_all add: pattern_defs match_defs)
  have v: "\<not> vector_candidate u (U ''-'')" "\<not> vector_candidate u (U ''/'')"
    by (simp_all add: vector_candidate_iff U_def)
  show ?thesis
    unfolding c using potential_symbol_stripped[of u t] vector_candidate_iff[of u t] r v by blast
qed

theorem glyph_candidate_rules_witness:
  "re_match (POTENTIAL_SYMBOL_RE_OCR ascii_platform) (strip (U '' +- '')) \<noteq> None
   \<and> vector_candidate ascii_platform (U ''+'')
   \<and> \<not> vector_candidate ascii_platform (U ''-'')"
proof -
  have s: "strip (U '' +- '') = U ''+-''"
    by (simp add: match_defs isspace_def in_range_def)
  have l: "list_all (\<lambda>c. \<not> isspace c \<and> \<not> isalnum ascii_platform c \<and> c \<noteq> 95
                         \<and> c \<notin> set ocr_excluded_punct) (U ''+-'')"
    by (simp add: pattern_defs U_def)
  have p: "\<not> isalnum ascii_platform 43 \<and> \<not> isspace 43 \<and> 43 \<notin> set ocr_excluded_punct"
    by (simp add: pattern_defs)
  show ?thesis
    using glyph_candidate_rules[of ascii_platform "U '' +- ''"]
          glyph_candidate_rules[of ascii_platform "U ''+''"] s l p
    by (simp add: U_def)
qed

theorem hyphen_slash_vector_counterexample:
  "\<not> vector_candidate ascii_platform (U ''-'') \<and> \<not> vector_candidate ascii_platform (U ''/'')
   \<and> re_match (POTENTIAL_SYMBOL_RE_OCR ascii_platform) (U ''_'') = None"
  by (simp add: vector_candidate_def COMMON_PUNCTUATION_def pattern_defs match_defs
                ascii_platform_def)

section \<open>The bounding-box filter of the vector strategy\<close>

lemma plumber_char_step_accepted:
  assumes "vector_candidate u (c_text ci)" "\<not> bbox_rejected pp (padded_bbox_of ci)"
    and "plumber_char_step u pp fp (Some cur, ves, st) ci = (cur', ves', st')"
  shows "sigil_counter st' = sigil_counter st + 1 \<and> length ves' = length ves + 1
         \<and> rect (last ves') = box_of ci
         \<and> (\<exists>sg. cur' = Some (cur\<lparr>o_sigils_metadata := o_sigils_metadata cur @ sg\<rparr>)
                \<and> saved_files st' = saved_files st @ map image_path sg
                \<and> (\<forall>sm \<in> set sg. bounding_box_pdf_coords sm = rect_tuple (padded_bbox_of ci)))"
proof -
  obtain r st2 where sv: "save_sigil_image u fp (rect_tuple (padded_bbox_of ci)) (o_heading cur)
                       (plumber_page_number pp) st = (r, st2)"
    by (cases "save_sigil_image u fp (rect_tuple (padded_bbox_of ci)) (o_heading cur)
                       (plumber_page_number pp) st") auto
  show ?thesis
  proof (cases r)
    case None
    then have "cur' = Some cur" "st' = st2" "length ves' = length ves + 1" "rect (last ves') = box_of ci"
      using assms sv by (auto simp: plumber_char_step_def Let_def)
    then show ?thesis using save_sigil_image_cases[OF sv] None
      by (auto intro!: exI[of _ "[]"])
  next
    case (Some path)
    then have "cur' = Some (cur\<lparr>o_sigils_metadata := o_sigils_metadata cur @
                       [\<lparr>image_path = path, parent_entry_heading = o_heading cur,
                         sigil_page_number = plumber_page_number pp, source_text = c_text ci,
                         bounding_box_pdf_coords = rect_tuple (padded_bbox_of ci),
                         extraction_method = Direct\<rparr>]\<rparr>)"
        "st' = st2" "length ves' = length ves + 1" "rect (last ves') = box_of ci"
      using assms sv by (auto simp: plumber_char_step_def Let_def)
    then show ?thesis using save_sigil_image_cases[OF sv] Some
      by (auto intro!: exI[of _ "[\<lparr>image_path = path, parent_entry_heading = o_heading cur,
                         sigil_page_number = plumber_page_number pp, source_text = c_text ci,
                         bounding_box_pdf_coords = rect_tuple (padded_bbox_of ci),
                         extraction_method = Direct\<rparr>]"])
  qed
qed

lemma padded_bbox_tuple:
  "rect_tuple (padded_bbox_of ci)
     = (fsub (binary64 (c_x0 ci)) 1, fsub (binary64 (c_top ci)) 1,
        fadd (binary64 (c_x1 ci)) 1, fadd (binary64 (c_bottom ci)) 1)"
  by (simp add: rect_tuple_def padded_bbox_of_def pymupdf_Rect_def fsub_def fadd_def Let_def)

text \<open>
  C5. For a vector-strategy glyph candidate met while an entry is open, the box is padded
  by 1 on each side, in float arithmetic, and the candidate is dropped, the state left
  as it was (no call of the store, no file, no metadata, no annotation), exactly when
  the padded box leaves the page, or is wider than half the page, or is higher than 50.
  Otherwise the store is called once with the padded box, and any metadata stored
  carries the padded box. For a box with integer corners the padded corners are the
  corners minus 1 and plus 1: the box (10, 10, 12, 12) on a 500 by 700 page passes with
  the padded box (9, 9, 13, 13). A candidate whose padded height is 60 is dropped.
  While no entry is open every candidate is dropped.
\<close>

theorem vector_bbox_filter:
  assumes "vector_candidate u (c_text ci)"
  shows "rect_tuple (padded_bbox_of ci)
           = (fsub (binary64 (c_x0 ci)) 1, fsub (binary64 (c_top ci)) 1,
              fadd (binary64 (c_x1 ci)) 1, fadd (binary64 (c_bottom ci)) 1)
   \<and> (bbox_rejected pp (padded_bbox_of ci) \<longleftrightarrow>
        fsub (binary64 (c_x0 ci)) 1 < 0 \<or> fsub (binary64 (c_top ci)) 1 < 0
        \<or> fadd (binary64 (c_x1 ci)) 1 > page_width pp
        \<or> fadd (binary64 (c_bottom ci)) 1 > page_height pp
        \<or> max 0 (fsub (fadd (binary64 (c_x1 ci)) 1) (fsub (binary64 (c_x0 ci)) 1))
             > fdiv (page_width pp) 2
        \<or> max 0 (fsub (fadd (binary64 (c_bottom ci)) 1) (fsub (binary64 (c_top ci)) 1)) > 50)
   \<and> (plumber_char_step u pp fp (Some cur, ves, st) ci = (Some cur, ves, st)
        \<longleftrightarrow> bbox_rejected pp (padded_bbox_of ci))
   \<and> (\<not> bbox_rejected pp (padded_bbox_of ci) \<longrightarrow>
        (\<forall>cur' ves' st'. plumber_char_step u pp fp (Some cur, ves, st) ci = (cur', ves', st') \<longrightarrow>
           sigil_counter st' = sigil_counter st + 1 \<and> length ves' = length ves + 1
           \<and> (\<exists>sg. cur' = Some (cur\<lparr>o_sigils_metadata := o_sigils_metadata cur @ sg\<rparr>)
                \<and> saved_files st' = saved_files st @ map image_path sg
                \<and> (\<forall>sm \<in> set sg. bounding_box_pdf_coords sm = rect_tuple (padded_bbox_of ci)))))
   \<and> (box_of ci = (of_int a, of_int b, of_int c, of_int d)
        \<and> \<bar>a\<bar> < 2 ^ 52 \<and> \<bar>b\<bar> < 2 ^ 52 \<and> \<bar>c\<bar> < 2 ^ 52 \<and> \<bar>d\<bar> < 2 ^ 52 \<longrightarrow>
        rect_tuple (padded_bbox_of ci)
          = (of_int (a - 1), of_int (b - 1), of_int (c + 1), of_int (d + 1)))
   \<and> (box_of ci = (10, 10, 12, 12) \<and> page_width pp = 500 \<and> page_height pp = 700 \<longrightarrow>
        \<not> bbox_rejected pp (padded_bbox_of ci) \<and> rect_tuple (padded_bbox_of ci) = (9, 9, 13, 13))
   \<and> (rect_height (padded_bbox_of ci) = 60 \<longrightarrow>
        plumber_char_step u pp fp (Some cur, ves, st) ci = (Some cur, ves, st))
   \<and> plumber_char_step u pp fp (None, ves, st) ci = (None, ves, st)"
proof -
  have a: "rect_tuple (padded_bbox_of ci)
           = (fsub (binary64 (c_x0 ci)) 1, fsub (binary64 (c_top ci)) 1,
              fadd (binary64 (c_x1 ci)) 1, fadd (binary64 (c_bottom ci)) 1)"
    by (rule padded_bbox_tuple)
  have b: "bbox_rejected pp (padded_bbox_of ci) \<longleftrightarrow>
        fsub (binary64 (c_x0 ci)) 1 < 0 \<or> fsub (binary64 (c_top ci)) 1 < 0
        \<or> fadd (binary64 (c_x1 ci)) 1 > page_width pp
        \<or> fadd (binary64 (c_bottom ci)) 1 > page_height pp
        \<or> max 0 (fsub (fadd (binary64 (c_x1 ci)) 1) (fsub (binary64 (c_x0 ci)) 1))
             > fdiv (page_width pp) 2
        \<or> max 0 (fsub (fadd (binary64 (c_bottom ci)) 1) (fsub (binary64 (c_top ci)) 1)) > 50"
    by (simp add: bbox_rejected_def padded_bbox_of_def pymupdf_Rect_def rect_width_def
                  rect_height_def fsub_def fadd_def Let_def)
  have rej: "bbox_rejected pp (padded_bbox_of ci)
               \<Longrightarrow> plumber_char_step u pp fp (Some cur, ves, st) ci = (Some cur, ves, st)"
    using assms by (simp add: plumber_char_step_def Let_def)
  have acc: "\<not> bbox_rejected pp (padded_bbox_of ci) \<Longrightarrow>
        plumber_char_step u pp fp (Some cur, ves, st) ci = (cur', ves', st') \<Longrightarrow>
           sigil_counter st' = sigil_counter st + 1 \<and> length ves' = length ves + 1
           \<and> (\<exists>sg. cur' = Some (cur\<lparr>o_sigils_metadata := o_sigils_metadata cur @ sg\<rparr>)
                \<and> saved_files st' = saved_files st @ map image_path sg
                \<and> (\<forall>sm \<in> set sg. bounding_box_pdf_coords sm = rect_tuple (padded_bbox_of ci)))"
    for cur' ves' st'
    using plumber_char_step_accepted[OF assms, of pp fp cur ves st cur' ves' st'] by blast
  have c: "plumber_char_step u pp fp (Some cur, ves, st) ci = (Some cur, ves, st)
        \<longleftrightarrow> bbox_rejected pp (padded_bbox_of ci)"
  proof
    assume same: "plumber_char_step u pp fp (Some cur, ves, st) ci = (Some cur, ves, st)"
    show "bbox_rejected pp (padded_bbox_of ci)"
    proof (rule ccontr)
      assume "\<not> bbox_rejected pp (padded_bbox_of ci)"
      from acc[OF this same] show False by simp
    qed
  qed (rule rej)
  have i: "box_of ci = (of_int a, of_int b, of_int c, of_int d)
        \<and> \<bar>a\<bar> < 2 ^ 52 \<and> \<bar>b\<bar> < 2 ^ 52 \<and> \<bar>c\<bar> < 2 ^ 52 \<and> \<bar>d\<bar> < 2 ^ 52 \<longrightarrow>
        rect_tuple (padded_bbox_of ci)
          = (of_int (a - 1), of_int (b - 1), of_int (c + 1), of_int (d + 1))"
    unfolding padded_bbox_tuple by (simp add: box_of_def int_padding)
  have d: "box_of ci = (10, 10, 12, 12) \<and> page_width pp = 500 \<and> page_height pp = 700 \<longrightarrow>
        \<not> bbox_rejected pp (padded_bbox_of ci) \<and> rect_tuple (padded_bbox_of ci) = (9, 9, 13, 13)"
    unfolding a b by (simp add: box_of_def fsub_def fadd_def fdiv_def)
  have e: "rect_height (padded_bbox_of ci) = 60 \<longrightarrow>
        plumber_char_step u pp fp (Some cur, ves, st) ci = (Some cur, ves, st)"
    using rej by (simp add: bbox_rejected_def)
  have f: "plumber_char_step u pp fp (None, ves, st) ci = (None, ves, st)"
    by (rule plumber_char_step_None)
  show ?thesis using a b c d e f i acc by blast
qed

lemma star_page_run:
  "extract_elements_from_plumber_page ascii_platform star_page (plain_fitz_page None) fresh_state
   = Inr (([\<lparr>heading = U ''FOO'', entry_class = U ''Abc.'',
          sigils_metadata =
            [\<lparr>image_path = U ''extracted_sigil_images/sigil_FOO_p1_id1.png'',
              parent_entry_heading = U ''FOO'', sigil_page_number = 1, source_text = U ''*'',
              bounding_box_pdf_coords = (9, 9, 13, 13), extraction_method = Direct\<rparr>],
          description = U ''x'', references_raw = [], page_number = 1\<rparr>],
       [\<lparr>rect = (10, 10, 12, 12), elem_type = SavedSigil, text_snippet = U ''*'',
         elem_size = None\<rparr>]),
      \<lparr>sigil_counter = 1, saved_files = [U ''extracted_sigil_images/sigil_FOO_p1_id1.png''],
       log = []\<rparr>)"
  by (simp add: pattern_defs match_defs run_defs ocr_run_defs plumber_run_defs)

theorem vector_bbox_filter_witness:
  "vector_candidate ascii_platform (c_text star_char)
   \<and> box_of star_char = (10, 10, 12, 12) \<and> page_width star_page = 500
   \<and> page_height star_page = 700
   \<and> \<not> bbox_rejected star_page (padded_bbox_of star_char)
   \<and> rect_tuple (padded_bbox_of star_char) = (9, 9, 13, 13)
   \<and> extract_elements_from_plumber_page ascii_platform star_page (plain_fitz_page None)
        fresh_state
      = Inr (([\<lparr>heading = U ''FOO'', entry_class = U ''Abc.'',
          sigils_metadata =
            [\<lparr>image_path = U ''extracted_sigil_images/sigil_FOO_p1_id1.png'',
              parent_entry_heading = U ''FOO'', sigil_page_number = 1, source_text = U ''*'',
              bounding_box_pdf_coords = (9, 9, 13, 13), extraction_method = Direct\<rparr>],
          description = U ''x'', references_raw = [], page_number = 1\<rparr>],
       [\<lparr>rect = (10, 10, 12, 12), elem_type = SavedSigil, text_snippet = U ''*'',
         elem_size = None\<rparr>]),
      \<lparr>sigil_counter = 1, saved_files = [U ''extracted_sigil_images/sigil_FOO_p1_id1.png''],
       log = []\<rparr>)"
proof -
  have v: "vector_candidate ascii_platform (c_text star_char)"
    by (simp add: plumber_run_defs pattern_defs U_def ascii_platform_def)
  have h: "box_of star_char = (10, 10, 12, 12) \<and> page_width star_page = 500
             \<and> page_height star_page = 700"
    by (simp add: plumber_run_defs)
  have r: "\<not> bbox_rejected star_page (padded_bbox_of star_char)
             \<and> rect_tuple (padded_bbox_of star_char) = (9, 9, 13, 13)"
    using vector_bbox_filter[OF v, of star_page] h by blast
  show ?thesis
    using r v h by (simp add: star_page_run)
qed

text \<open>
  Rounding decides at the bounds of the page. On a page 512 wide a character whose right
  edge is \<open>511 + 2^-44\<close> has the padded right edge 512, the float nearest to
  \<open>512 + 2^-44\<close>, and passes the filter; in exact arithmetic its padded box would leave
  the page.
\<close>

lemma padding_rounds_at_the_bound:
  "rx1 (padded_bbox_of \<lparr>c_text = U ''*'', c_x0 = 500, c_top = 10, c_x1 = 511 + 1 / 2 ^ 44,
                        c_bottom = 12\<rparr>) = 512
   \<and> \<not> bbox_rejected ((text_page (U ''FOO Abc. x'') [])\<lparr>page_width := 512\<rparr>)
         (padded_bbox_of \<lparr>c_text = U ''*'', c_x0 = 500, c_top = 10, c_x1 = 511 + 1 / 2 ^ 44,
                          c_bottom = 12\<rparr>)"
proof -
  define x :: rat where "x = 511 + 1 / 2 ^ 44"
  have p: "binary64 x = x" unfolding x_def by (rule padding_example)
  have r: "binary64 (x + 1) = 512" unfolding x_def by (rule rounding_example)
  have "rx1 (padded_bbox_of \<lparr>c_text = U ''*'', c_x0 = 500, c_top = 10, c_x1 = x,
                              c_bottom = 12\<rparr>) = 512
   \<and> \<not> bbox_rejected ((text_page (U ''FOO Abc. x'') [])\<lparr>page_width := 512\<rparr>)
         (padded_bbox_of \<lparr>c_text = U ''*'', c_x0 = 500, c_top = 10, c_x1 = x,
                          c_bottom = 12\<rparr>)"
    by (simp add: padded_bbox_of_def pymupdf_Rect_def fsub_def fadd_def fdiv_def Let_def
                  bbox_rejected_def rect_width_def rect_height_def text_page_def p r)
  then show ?thesis unfolding x_def .
qed

section \<open>Duplicate annotations\<close>

lemma unique_by_rect_fresh:
  "v \<in> set (unique_by_rect seen ves) \<Longrightarrow> rect v \<notin> seen \<and> v \<in> set ves"
  by (induction ves arbitrary: seen) (auto split: if_splits)

lemma unique_by_rect_distinct: "distinct (map rect (unique_by_rect seen ves))"
proof (induction ves arbitrary: seen)
  case Nil
  then show ?case by simp
next
  case (Cons ve ves)
  have "rect ve \<notin> rect ` set (unique_by_rect (insert (rect ve) seen) ves)"
  proof
    assume "rect ve \<in> rect ` set (unique_by_rect (insert (rect ve) seen) ves)"
    then obtain v where v: "v \<in> set (unique_by_rect (insert (rect ve) seen) ves)"
      and e: "rect ve = rect v" by blast
    from unique_by_rect_fresh[OF v] e show False by simp
  qed
  then show ?case using Cons.IH by simp
qed

lemma unique_by_rect_rects:
  "rect ` set (unique_by_rect seen ves) = rect ` set ves - seen"
proof (induction ves arbitrary: seen)
  case Nil
  then show ?case by simp
next
  case (Cons ve ves)
  show ?case
  proof (cases "rect ve \<in> seen")
    case True
    then show ?thesis using Cons.IH[of seen] by auto
  next
    case False
    then show ?thesis using Cons.IH[of "insert (rect ve) seen"] by auto
  qed
qed

lemma unique_by_rect_first:
  "v \<in> set (unique_by_rect seen ves) \<Longrightarrow> find (\<lambda>w. rect w = rect v) ves = Some v"
proof (induction ves arbitrary: seen)
  case Nil
  then show ?case by simp
next
  case (Cons ve ves)
  show ?case
  proof (cases "rect ve \<in> seen")
    case True
    then have v: "v \<in> set (unique_by_rect seen ves)" using Cons.prems by simp
    then have "rect v \<notin> seen" using unique_by_rect_fresh by blast
    then have "rect ve \<noteq> rect v" using True by auto
    then show ?thesis using Cons.IH[OF v] by simp
  next
    case False
    then have "v = ve \<or> v \<in> set (unique_by_rect (insert (rect ve) seen) ves)"
      using Cons.prems by auto
    then show ?thesis
    proof
      assume "v = ve" then show ?thesis by simp
    next
      assume v: "v \<in> set (unique_by_rect (insert (rect ve) seen) ves)"
      then have "rect v \<noteq> rect ve" using unique_by_rect_fresh[OF v] by auto
      then show ?thesis using Cons.IH[OF v] by auto
    qed
  qed
qed

lemma attach_to_last_concat:
  "\<forall>e \<in> set d. sigils_metadata e = [] \<Longrightarrow>
     concat (map sigils_metadata (attach_to_last d sg)) = (if d = [] then [] else sg)"
  by (cases d rule: rev_cases) (auto simp: attach_to_last_def)

lemma plumber_files_are_sigils:
  assumes "plumber_page_pass u pp fp st = Inr ((es, ves), st')"
  shows "saved_files st' = saved_files st @ map image_path (concat (map sigils_metadata es))"
proof -
  define d where "d = described_entries u (plumber_page_number pp)
                     (clean_lines (split_on 10 (the_text (extract_text pp))))"
  from plumber_pass_entries[OF assms] obtain sg where
    sg: "es = attach_to_last d sg" "saved_files st' = saved_files st @ map image_path sg"
      "es = [] \<longrightarrow> st' = st \<and> sg = []"
    unfolding d_def by blast
  have dn: "\<forall>e \<in> set d. sigils_metadata e = []"
    unfolding d_def using described_entries_no_sigils by blast
  have "concat (map sigils_metadata es) = sg"
    using attach_to_last_concat[OF dn, of sg] sg(1,3) by (cases "d = []") auto
  then show ?thesis using sg(2) by simp
qed

lemma ocr_files_are_sigils:
  assumes "ocr_data fp = Some table"
  shows "saved_files (snd (extract_elements_with_ocr u fp st))
         = saved_files st @ map image_path
             (concat (map sigils_metadata (fst (fst (extract_elements_with_ocr u fp st)))))"
proof -
  obtain es ves st' where p: "extract_elements_with_ocr u fp st = ((es, ves), st')"
    by (cases "extract_elements_with_ocr u fp st") auto
  define d where "d = described_entries u (number fp + 1)
                     (clean_lines (ocr_lines (filter (\<lambda>r. conf r > - 1) table)))"
  from ocr_entries[OF assms p] obtain sg where
    sg: "es = attach_to_last d sg" "saved_files st' = saved_files st @ map image_path sg"
      "es = [] \<longrightarrow> st' = st \<and> sg = []"
    unfolding d_def by blast
  have dn: "\<forall>e \<in> set d. sigils_metadata e = []"
    unfolding d_def using described_entries_no_sigils by blast
  have "concat (map sigils_metadata es) = sg"
    using attach_to_last_concat[OF dn, of sg] sg(1,3) by (cases "d = []") auto
  then show ?thesis using p sg(2) by simp
qed

lemma plumber_page_distinct:
  "extract_elements_from_plumber_page u pp fp st = Inr ((es, ves), st')
     \<Longrightarrow> distinct (map rect ves)"
  by (auto simp: extract_elements_from_plumber_page_def unique_by_rect_distinct
           split: if_splits sum.splits prod.splits)

text \<open>
  C9. The vector strategy returns annotations with pairwise different \<open>rect\<close> tuples:
  of the annotations it collected it keeps, for each tuple, the first one with that
  tuple. The raster strategy removes nothing: it returns one annotation for each row of
  the OCR table that has a non-blank text, in the order of the rows, with the row's
  pixel box, so two rows with the same box give two annotations with the same tuple.
  Sigil metadata is never deduplicated under either strategy: the files written for a
  page are exactly the image paths of the sigil records of its entries, one record for
  each file.
\<close>

theorem annotations_deduplicated_vector_only:
  "(extract_elements_from_plumber_page u pp fp st = Inr ((es, ves), st')
      \<longrightarrow> distinct (map rect ves))
   \<and> (the_text (extract_text pp) \<noteq> [] \<and> page_lines pp = [] \<longrightarrow>
        (\<exists>es ves st' ves0.
           extract_elements_from_plumber_page u pp fp st = Inr ((es, ves), st')
           \<and> plumber_page_pass u pp fp st = Inr ((es, ves0), st')
           \<and> ves = unique_by_rect {} ves0
           \<and> distinct (map rect ves)
           \<and> rect ` set ves = rect ` set ves0
           \<and> list_all (\<lambda>v. find (\<lambda>w. rect w = rect v) ves0 = Some v) ves
           \<and> saved_files st' = saved_files st @ map image_path
                (concat (map sigils_metadata es))))
   \<and> (ocr_data fp = Some table \<longrightarrow>
        map rect (snd (fst (extract_elements_with_ocr u fp st)))
          = map ocr_row_box (filter (\<lambda>r. \<not> blank_row r) (filter (\<lambda>r. conf r > - 1) table))
        \<and> saved_files (snd (extract_elements_with_ocr u fp st))
            = saved_files st @ map image_path
                (concat (map sigils_metadata (fst (fst (extract_elements_with_ocr u fp st))))))"
proof (intro conjI impI)
  assume "extract_elements_from_plumber_page u pp fp st = Inr ((es, ves), st')"
  then show "distinct (map rect ves)" by (rule plumber_page_distinct)
next
  assume a: "the_text (extract_text pp) \<noteq> [] \<and> page_lines pp = []"
  then have ne: "the_text (extract_text pp) \<noteq> []" and nl: "page_lines pp = []" by simp_all
  from plumber_page_total[OF nl, of u fp st] obtain es ves st' where
    r: "extract_elements_from_plumber_page u pp fp st = Inr ((es, ves), st')" by blast
  from plumber_page_Inr[OF r ne] obtain ves0 where
    p: "plumber_page_pass u pp fp st = Inr ((es, ves0), st')"
    and k: "ves = unique_by_rect {} ves0" by blast
  have d: "distinct (map rect ves)" using r by (rule plumber_page_distinct)
  have i: "rect ` set ves = rect ` set ves0" unfolding k unique_by_rect_rects by simp
  have f: "list_all (\<lambda>v. find (\<lambda>w. rect w = rect v) ves0 = Some v) ves"
    unfolding k list_all_iff using unique_by_rect_first by blast
  have sf: "saved_files st' = saved_files st @ map image_path (concat (map sigils_metadata es))"
    by (rule plumber_files_are_sigils[OF p])
  show "\<exists>es ves st' ves0.
           extract_elements_from_plumber_page u pp fp st = Inr ((es, ves), st')
           \<and> plumber_page_pass u pp fp st = Inr ((es, ves0), st')
           \<and> ves = unique_by_rect {} ves0
           \<and> distinct (map rect ves)
           \<and> rect ` set ves = rect ` set ves0
           \<and> list_all (\<lambda>v. find (\<lambda>w. rect w = rect v) ves0 = Some v) ves
           \<and> saved_files st' = saved_files st @ map image_path
                (concat (map sigils_metadata es))"
    by (intro exI[of _ es] exI[of _ ves] exI[of _ st'] exI[of _ ves0] conjI;
        (rule r p k d i f sf))
next
  assume o: "ocr_data fp = Some table"
  obtain es ves st' where p: "extract_elements_with_ocr u fp st = ((es, ves), st')"
    by (cases "extract_elements_with_ocr u fp st") auto
  from ocr_entries[OF o p]
  show "map rect (snd (fst (extract_elements_with_ocr u fp st)))
          = map ocr_row_box (filter (\<lambda>r. \<not> blank_row r) (filter (\<lambda>r. conf r > - 1) table))"
    unfolding p by auto
  show "saved_files (snd (extract_elements_with_ocr u fp st))
            = saved_files st @ map image_path
                (concat (map sigils_metadata (fst (fst (extract_elements_with_ocr u fp st)))))"
    by (rule ocr_files_are_sigils[OF o])
qed

lemma double_star_run:
  "extract_elements_from_plumber_page ascii_platform double_star_page (plain_fitz_page t)
     fresh_state
   = Inr (([\<lparr>heading = U ''FOO'', entry_class = U ''Abc.'',
          sigils_metadata =
            [\<lparr>image_path = U ''extracted_sigil_images/sigil_FOO_p1_id1.png'',
              parent_entry_heading = U ''FOO'', sigil_page_number = 1, source_text = U ''*'',
              bounding_box_pdf_coords = (9, 9, 13, 13), extraction_method = Direct\<rparr>,
             \<lparr>image_path = U ''extracted_sigil_images/sigil_FOO_p1_id2.png'',
              parent_entry_heading = U ''FOO'', sigil_page_number = 1, source_text = U ''*'',
              bounding_box_pdf_coords = (9, 9, 13, 13), extraction_method = Direct\<rparr>],
          description = U ''x'', references_raw = [], page_number = 1\<rparr>],
       [\<lparr>rect = (10, 10, 12, 12), elem_type = SavedSigil, text_snippet = U ''*'',
         elem_size = None\<rparr>]),
      \<lparr>sigil_counter = 2,
       saved_files = [U ''extracted_sigil_images/sigil_FOO_p1_id1.png'',
                      U ''extracted_sigil_images/sigil_FOO_p1_id2.png''],
       log = []\<rparr>)"
  by (simp add: pattern_defs match_defs run_defs ocr_run_defs plumber_run_defs
                double_star_page_def)

theorem annotations_deduplicated_vector_only_witness:
  "the_text (extract_text double_star_page) \<noteq> []
   \<and> page_lines double_star_page = []
   \<and> ocr_data (plain_fitz_page (Some overlapping_table)) = Some overlapping_table
   \<and> (\<exists>es ves st'. extract_elements_from_plumber_page ascii_platform double_star_page
          (plain_fitz_page (Some overlapping_table)) fresh_state = Inr ((es, ves), st')
        \<and> map rect ves = [(10, 10, 12, 12)]
        \<and> distinct (map rect ves)
        \<and> saved_files st' = [U ''extracted_sigil_images/sigil_FOO_p1_id1.png'',
                              U ''extracted_sigil_images/sigil_FOO_p1_id2.png''])
   \<and> map rect (snd (fst (extract_elements_with_ocr ascii_platform
        (plain_fitz_page (Some overlapping_table)) fresh_state)))
       = map ocr_row_box overlapping_table"
proof -
  let ?fp = "plain_fitz_page (Some overlapping_table)"
  note inst = annotations_deduplicated_vector_only[where u = ascii_platform
            and pp = double_star_page and fp = ?fp and st = fresh_state
            and table = overlapping_table]
  have t: "the_text (extract_text double_star_page) \<noteq> []"
    and nl: "page_lines double_star_page = []"
    by (simp_all add: double_star_page_def text_page_def the_text_def U_def)
  have o: "ocr_data ?fp = Some overlapping_table"
    by (simp add: plain_fitz_page_def)
  from inst[THEN conjunct2, THEN conjunct1, rule_format, OF conjI[OF t nl]]
  obtain es ves st' ves0 where
    r: "extract_elements_from_plumber_page ascii_platform double_star_page ?fp fresh_state
          = Inr ((es, ves), st')"
    and d: "distinct (map rect ves)"
    by (elim exE conjE)
  have v: "map rect ves = [(10, 10, 12, 12)]"
          "saved_files st' = [U ''extracted_sigil_images/sigil_FOO_p1_id1.png'',
                              U ''extracted_sigil_images/sigil_FOO_p1_id2.png'']"
    using r unfolding double_star_run by auto
  have f: "filter (\<lambda>r. \<not> blank_row r) (filter (\<lambda>r. conf r > - 1) overlapping_table)
             = overlapping_table"
    by (simp add: overlapping_table_def word_row_def blank_row_def isna_def py_str_def
                  match_defs isspace_def in_range_def)
  have ov: "map rect (snd (fst (extract_elements_with_ocr ascii_platform ?fp fresh_state)))
              = map ocr_row_box overlapping_table"
    using inst[THEN conjunct2, THEN conjunct2, rule_format, OF o, THEN conjunct1]
    unfolding f .
  show ?thesis
    by (intro conjI exI; (rule t nl o r v d ov))
qed

theorem ocr_annotations_counterexample:
  "map rect (snd (fst (extract_elements_with_ocr ascii_platform
      (plain_fitz_page (Some overlapping_table)) fresh_state))) = [(0, 0, 5, 5), (0, 0, 5, 5)]
   \<and> \<not> distinct (map rect (snd (fst (extract_elements_with_ocr ascii_platform
      (plain_fitz_page (Some overlapping_table)) fresh_state))))"
  by (simp add: pattern_defs match_defs run_defs ocr_run_defs overlapping_table_def)

section \<open>The sigil counter and the file names\<close>

lemma str_of_nat_digits: "c \<in> set (str_of_nat n) \<Longrightarrow> 48 \<le> c \<and> c \<le> 57"
proof (induction n arbitrary: c rule: str_of_nat.induct)
  case (1 n)
  show ?case
  proof (cases "n < 10")
    case True
    then show ?thesis using "1.prems" by (simp add: str_of_nat.simps)
  next
    case False
    then have "c \<in> set (str_of_nat (n div 10)) \<or> c = 48 + n mod 10"
      using "1.prems" by (subst (asm) str_of_nat.simps) auto
    then show ?thesis
    proof
      assume "c \<in> set (str_of_nat (n div 10))"
      then show ?thesis using "1.IH"[OF False] by blast
    next
      assume "c = 48 + n mod 10"
      then show ?thesis by simp
    qed
  qed
qed

lemma str_of_nat_value: "foldl (\<lambda>a c. 10 * a + (c - 48)) 0 (str_of_nat n) = n"
proof (induction n rule: str_of_nat.induct)
  case (1 n)
  show ?case
  proof (cases "n < 10")
    case True
    then show ?thesis by (simp add: str_of_nat.simps)
  next
    case False
    have "str_of_nat n = str_of_nat (n div 10) @ [48 + n mod 10]"
      using False by (subst str_of_nat.simps) simp
    then show ?thesis using "1.IH"[OF False] by simp
  qed
qed

lemma str_of_nat_inj: "str_of_nat a = str_of_nat b \<Longrightarrow> a = b"
  by (metis str_of_nat_value)

lemma digits_before_d:
  assumes "X @ [100] @ da = Y @ [100] @ db"
    and "\<forall>c \<in> set da. 48 \<le> c \<and> c \<le> 57" "\<forall>c \<in> set db. 48 \<le> c \<and> c \<le> (57::nat)"
  shows "da = db"
proof -
  let ?dig = "\<lambda>c::nat. 48 \<le> c \<and> c \<le> 57"
  have "rev da @ [100] @ rev X = rev db @ [100] @ rev Y"
    using arg_cong[OF assms(1), of rev] by simp
  then have "takeWhile ?dig (rev da @ 100 # rev X) = takeWhile ?dig (rev db @ 100 # rev Y)"
    by simp
  moreover have "takeWhile ?dig (rev da @ 100 # rev X) = rev da"
    using assms(2) by (subst takeWhile_append2) auto
  moreover have "takeWhile ?dig (rev db @ 100 # rev Y) = rev db"
    using assms(3) by (subst takeWhile_append2) auto
  ultimately show ?thesis by simp
qed

lemma img_path_of_inj_id:
  assumes "img_path_of u h p k = img_path_of u h' p' k'"
  shows "k = k'"
proof -
  define X where "X = OUTPUT_IMAGE_DIR @ [os_sep u] @ U ''sigil_'' @ clean_heading u h @ U ''_p''
                        @ str_of_nat p @ U ''_i''"
  define Y where "Y = OUTPUT_IMAGE_DIR @ [os_sep u] @ U ''sigil_'' @ clean_heading u h' @ U ''_p''
                        @ str_of_nat p' @ U ''_i''"
  have a: "img_path_of u h p k = (X @ [100] @ str_of_nat k) @ U ''.png''"
    by (simp add: img_path_of_def img_filename_def X_def U_def)
  have b: "img_path_of u h' p' k' = (Y @ [100] @ str_of_nat k') @ U ''.png''"
    by (simp add: img_path_of_def img_filename_def Y_def U_def)
  from assms a b have "X @ [100] @ str_of_nat k = Y @ [100] @ str_of_nat k'"
    by simp
  then have "str_of_nat k = str_of_nat k'"
    using digits_before_d str_of_nat_digits by blast
  then show ?thesis by (rule str_of_nat_inj)
qed

lemma issued_mono: "issued u n files \<Longrightarrow> n \<le> m \<Longrightarrow> issued u m files"
  unfolding issued_def by (elim exE, rule_tac x = tags in exI) auto

lemma issued_Nil: "issued u n []"
  unfolding issued_def by (intro exI[of _ "[]"]) simp

lemma issued_snoc:
  assumes "issued u n files"
  shows "issued u (Suc n) (files @ [img_path_of u h p (Suc n)])"
proof -
  from assms obtain tags where
    t: "files = map (\<lambda>t. img_path_of u (fst t) (fst (snd t)) (snd (snd t))) tags"
       "sorted_wrt (<) (map (\<lambda>t. snd (snd t)) tags)"
       "\<forall>t \<in> set tags. 1 \<le> snd (snd t) \<and> snd (snd t) \<le> n"
    unfolding issued_def by blast
  show ?thesis
    unfolding issued_def
    using t by (intro exI[of _ "tags @ [(h, p, Suc n)]"]) (auto simp: sorted_wrt_append)
qed

lemma issued_distinct: "issued u n files \<Longrightarrow> distinct files"
proof -
  assume "issued u n files"
  then obtain tags where
    t: "files = map (\<lambda>t. img_path_of u (fst t) (fst (snd t)) (snd (snd t))) tags"
       "sorted_wrt (<) (map (\<lambda>t. snd (snd t)) tags)"
    unfolding issued_def by blast
  have "distinct (map (\<lambda>t. snd (snd t)) tags)"
    using t(2) by (simp add: strict_sorted_iff)
  then show ?thesis
    unfolding t(1)
    by (auto simp: distinct_map inj_on_def dest: img_path_of_inj_id)
qed

lemma plumber_char_step_pres:
  assumes sv: "\<And>fp b h p st. P st \<Longrightarrow> P (snd (save_sigil_image u fp b h p st))"
  shows "P (snd (snd gs)) \<Longrightarrow> P (snd (snd (plumber_char_step u pp fp gs ci)))"
proof -
  assume p: "P (snd (snd gs))"
  obtain cur ves st where gs: "gs = (cur, ves, st)" by (cases gs) auto
  have sv2: "P st'" if "save_sigil_image u fp b h pg st = (r, st')" for b h pg r st'
    using sv[of st fp b h pg] p that unfolding gs by simp
  show ?thesis
    using p unfolding gs
    by (auto simp: plumber_char_step_def Let_def split: option.splits prod.splits dest: sv2)
qed

lemma plumber_char_fold_pres:
  assumes sv: "\<And>fp b h p st. P st \<Longrightarrow> P (snd (save_sigil_image u fp b h p st))"
  shows "P (snd (snd gs)) \<Longrightarrow> P (snd (snd (foldl (plumber_char_step u pp fp) gs chs)))"
proof (induction chs arbitrary: gs)
  case Nil
  then show ?case by simp
next
  case (Cons ci chs)
  have "P (snd (snd (plumber_char_step u pp fp gs ci)))"
    using plumber_char_step_pres[of P u gs pp fp ci] sv Cons.prems by blast
  from Cons.IH[OF this] show ?case by simp
qed

lemma plumber_page_pres:
  assumes sv: "\<And>fp b h p st. P st \<Longrightarrow> P (snd (save_sigil_image u fp b h p st))"
  shows "P st \<Longrightarrow> extract_elements_from_plumber_page u pp fp st = Inr (r, st') \<Longrightarrow> P st'"
proof -
  assume p: "P st" and e: "extract_elements_from_plumber_page u pp fp st = Inr (r, st')"
  show ?thesis
  proof (cases "the_text (extract_text pp) = []")
    case True
    then show ?thesis using p e by (simp add: extract_elements_from_plumber_page_def)
  next
    case False
    obtain es ves where r: "r = (es, ves)" by (cases r) auto
    from plumber_page_Inr[OF e[unfolded r] False] obtain ves0 where
      pp: "plumber_page_pass u pp fp st = Inr ((es, ves0), st')" by blast
    then have "\<exists>cur0 ves1.
        st' = snd (snd (foldl (plumber_char_step u pp fp) (cur0, ves1, st) (chars pp)))"
      by (auto simp: plumber_page_pass_def split: sum.splits prod.splits) (metis snd_conv)
    then obtain cur0 ves1 where
      "st' = snd (snd (foldl (plumber_char_step u pp fp) (cur0, ves1, st) (chars pp)))"
      by blast
    then show ?thesis
      using plumber_char_fold_pres[of P u "(cur0, ves1, st)" pp fp "chars pp"] sv p by simp
  qed
qed

lemma ocr_row_step_pres:
  assumes sv: "\<And>fp b h p st. P st \<Longrightarrow> P (snd (save_sigil_image u fp b h p st))"
  shows "P (snd (snd os)) \<Longrightarrow> P (snd (snd (ocr_row_step u fp os row)))"
proof -
  assume p: "P (snd (snd os))"
  obtain es ves st where os: "os = (es, ves, st)" by (cases os) auto
  have sv2: "P st'" if "save_sigil_image u fp b h pg st = (r, st')" for b h pg r st'
    using sv[of st fp b h pg] p that unfolding os by simp
  show ?thesis
    using p unfolding os
    by (auto simp: ocr_row_step_def Let_def split: option.splits prod.splits dest: sv2)
qed

lemma ocr_row_fold_pres:
  assumes sv: "\<And>fp b h p st. P st \<Longrightarrow> P (snd (save_sigil_image u fp b h p st))"
  shows "P (snd (snd os)) \<Longrightarrow> P (snd (snd (foldl (ocr_row_step u fp) os rows)))"
proof (induction rows arbitrary: os)
  case Nil
  then show ?case by simp
next
  case (Cons row rows)
  have "P (snd (snd (ocr_row_step u fp os row)))"
    using ocr_row_step_pres[of P u os fp row] sv Cons.prems by blast
  from Cons.IH[OF this] show ?case by simp
qed

lemma ocr_page_pres:
  assumes sv: "\<And>fp b h p st. P st \<Longrightarrow> P (snd (save_sigil_image u fp b h p st))"
    and lg: "\<And>st l. P st \<Longrightarrow> P (st\<lparr>log := l\<rparr>)"
  shows "P st \<Longrightarrow> P (snd (extract_elements_with_ocr u fp st))"
proof -
  assume p: "P st"
  show ?thesis
  proof (cases "ocr_data fp")
    case None
    then show ?thesis using lg[OF p] by (simp add: extract_elements_with_ocr_def)
  next
    case (Some table)
    define rows where "rows = filter (\<lambda>r. conf r > - 1) table"
    define es0 where "es0 = close_current u
        (fst (foldl (ocr_line_step u (number fp + 1)) ([], None) (ocr_lines rows)))
        (snd (foldl (ocr_line_step u (number fp + 1)) ([], None) (ocr_lines rows)))"
    have "P (snd (snd (foldl (ocr_row_step u fp) (es0, [], st) rows)))"
      using ocr_row_fold_pres[of P u "(es0, [], st)" fp rows] sv p by simp
    then show ?thesis
      using Some unfolding extract_elements_with_ocr_def rows_def es0_def
      by (auto simp: Let_def split: prod.splits)
  qed
qed

lemma scan_loop_pres:
  assumes sv: "\<And>fp b h p st. P st \<Longrightarrow> P (snd (save_sigil_image u fp b h p st))"
    and lg: "\<And>st l. P st \<Longrightarrow> P (st\<lparr>log := l\<rparr>)"
  shows "P (snd acc) \<Longrightarrow> P (snd (scan_loop u use_ocr acc pages))"
proof (induction pages arbitrary: acc)
  case Nil
  then show ?case by simp
next
  case (Cons pg pages)
  show ?case
  proof (cases "scan_page u use_ocr (snd acc) pg")
    case (Inl e)
    then show ?thesis using lg[OF Cons.prems] by simp
  next
    case (Inr res)
    obtain parsed ves st' where res: "res = ((parsed, ves), st')" by (cases res) auto
    have "P st'"
    proof (cases use_ocr)
      case True
      then have "st' = snd (extract_elements_with_ocr u (fst pg) (snd acc))"
        using Inr res by (simp add: scan_page_def)
      then show ?thesis using ocr_page_pres[of P u "snd acc" "fst pg"] sv lg Cons.prems by simp
    next
      case False
      then have "extract_elements_from_plumber_page u (snd pg) (fst pg) (snd acc)
                   = Inr ((parsed, ves), st')"
        using Inr res by (simp add: scan_page_def)
      from plumber_page_pres[of P u "snd acc", OF sv Cons.prems this] show ?thesis .
    qed
    then have "P (snd (fst acc @ parsed, st'))" by simp
    from Cons.IH[OF this] show ?thesis using Inr res by simp
  qed
qed

lemma written_since_save:
  "written_since u base st \<Longrightarrow> written_since u base (snd (save_sigil_image u fp b h p st))"
proof -
  assume "written_since u base st"
  then obtain new where n: "saved_files st = base @ new" "issued u (sigil_counter st) new"
    unfolding written_since_def by blast
  obtain r st' where s: "save_sigil_image u fp b h p st = (r, st')"
    by (cases "save_sigil_image u fp b h p st") auto
  show ?thesis
  proof (cases r)
    case None
    then have "saved_files st' = base @ new" "sigil_counter st' = Suc (sigil_counter st)"
      using save_sigil_image_cases[OF s] n by simp_all
    then show ?thesis
      unfolding written_since_def s using issued_mono[OF n(2), of "Suc (sigil_counter st)"]
      by (intro exI[of _ new]) simp
  next
    case (Some path)
    then have "saved_files st' = base @ new @ [img_path_of u h p (Suc (sigil_counter st))]"
       "sigil_counter st' = Suc (sigil_counter st)"
      using save_sigil_image_cases[OF s] n by simp_all
    then show ?thesis
      unfolding written_since_def s using issued_snoc[OF n(2), of h p]
      by (intro exI[of _ "new @ [img_path_of u h p (Suc (sigil_counter st))]"]) simp
  qed
qed

lemma written_since_log: "written_since u base st \<Longrightarrow> written_since u base (st\<lparr>log := l\<rparr>)"
  by (simp add: written_since_def)

lemma scan_pages_written:
  "written_since u (saved_files st0) (snd (scan_pages u use_ocr pages st0))"
proof -
  have "written_since u (saved_files st0) (start_scan st0)"
    unfolding written_since_def start_scan_def using issued_Nil
    by (intro exI[of _ "[]"]) simp
  then show ?thesis
    unfolding scan_pages_def
    using scan_loop_pres[of "written_since u (saved_files st0)" u "([], start_scan st0)" use_ocr pages]
          written_since_save written_since_log
    by simp
qed

lemma gap_run:
  "snd (scan_pages ascii_platform False [(patchy_fitz_page, two_star_page)] fresh_state)
   = \<lparr>sigil_counter = 2, saved_files = [U ''extracted_sigil_images/sigil_FOO_p1_id2.png''],
      log = []\<rparr>"
  by (simp add: pattern_defs match_defs run_defs ocr_run_defs plumber_run_defs
                scan_pages_def scan_page_def start_scan_def patchy_fitz_page_def
                two_star_page_def)

text \<open>
  C10. Every call of the sigil-save operation raises the counter by exactly one, whatever
  it returns; a call that saves writes the path built from the new counter value, a call
  that returns nothing writes no file. Paths built with different ids differ. So the
  files written during a scan carry strictly increasing ids between 1 and the final
  counter value and are pairwise different, and ids may be missing among them: in the
  scan of the page with two glyphs whose first crop is empty, the only file written has
  id 2.
\<close>

theorem sigil_counter_and_filenames:
  "sigil_counter (snd (save_sigil_image u fp b h p st)) = sigil_counter st + 1
   \<and> (\<forall>path. fst (save_sigil_image u fp b h p st) = Some path \<longrightarrow>
         path = img_path_of u h p (sigil_counter st + 1)
         \<and> saved_files (snd (save_sigil_image u fp b h p st)) = saved_files st @ [path])
   \<and> (fst (save_sigil_image u fp b h p st) = None \<longrightarrow>
         saved_files (snd (save_sigil_image u fp b h p st)) = saved_files st)
   \<and> (img_path_of u h p k = img_path_of u h' p' k' \<longrightarrow> k = k')
   \<and> (\<exists>new. saved_files (snd (scan_pages u use_ocr pages st0)) = saved_files st0 @ new
          \<and> issued u (sigil_counter (snd (scan_pages u use_ocr pages st0))) new
          \<and> distinct new)
   \<and> snd (scan_pages ascii_platform False [(patchy_fitz_page, two_star_page)] fresh_state)
       = \<lparr>sigil_counter = 2, saved_files = [U ''extracted_sigil_images/sigil_FOO_p1_id2.png''],
          log = []\<rparr>"
proof -
  obtain r st' where s: "save_sigil_image u fp b h p st = (r, st')"
    by (cases "save_sigil_image u fp b h p st") auto
  have a: "sigil_counter (snd (save_sigil_image u fp b h p st)) = sigil_counter st + 1"
    using save_sigil_image_cases[OF s] s by simp
  have b: "\<forall>path. fst (save_sigil_image u fp b h p st) = Some path \<longrightarrow>
         path = img_path_of u h p (sigil_counter st + 1)
         \<and> saved_files (snd (save_sigil_image u fp b h p st)) = saved_files st @ [path]"
    using save_sigil_image_cases[OF s] s by auto
  have c: "fst (save_sigil_image u fp b h p st) = None \<longrightarrow>
         saved_files (snd (save_sigil_image u fp b h p st)) = saved_files st"
    using save_sigil_image_cases[OF s] s by auto
  have d: "img_path_of u h p k = img_path_of u h' p' k' \<longrightarrow> k = k'"
    using img_path_of_inj_id by blast
  have e: "\<exists>new. saved_files (snd (scan_pages u use_ocr pages st0)) = saved_files st0 @ new
          \<and> issued u (sigil_counter (snd (scan_pages u use_ocr pages st0))) new
          \<and> distinct new"
    using scan_pages_written[of u st0 use_ocr pages] issued_distinct
    unfolding written_since_def by blast
  show ?thesis using a b c d e gap_run by blast
qed

theorem sigil_counter_and_filenames_witness:
  "fst (save_sigil_image ascii_platform (plain_fitz_page None) (9, 9, 13, 13) (U ''FOO'') 1
          fresh_state) = Some (U ''extracted_sigil_images/sigil_FOO_p1_id1.png'')
   \<and> fst (save_sigil_image ascii_platform patchy_fitz_page (9, 9, 13, 13) (U ''FOO'') 1
          fresh_state) = None
   \<and> sigil_counter (snd (save_sigil_image ascii_platform patchy_fitz_page (9, 9, 13, 13)
          (U ''FOO'') 1 fresh_state)) = 1
   \<and> saved_files (snd (save_sigil_image ascii_platform patchy_fitz_page (9, 9, 13, 13)
          (U ''FOO'') 1 fresh_state)) = []
   \<and> img_path_of ascii_platform (U ''FOO'') 1 1
       = U ''extracted_sigil_images/sigil_FOO_p1_id1.png''"
proof -
  have p: "img_path_of ascii_platform (U ''FOO'') 1 1
             = U ''extracted_sigil_images/sigil_FOO_p1_id1.png''"
    by (simp add: pattern_defs match_defs ocr_run_defs)
  have g: "fst (save_sigil_image ascii_platform (plain_fitz_page None) (9, 9, 13, 13) (U ''FOO'') 1
          fresh_state) = Some (U ''extracted_sigil_images/sigil_FOO_p1_id1.png'')"
    by (simp add: pattern_defs match_defs ocr_run_defs Let_def)
  have n: "fst (save_sigil_image ascii_platform patchy_fitz_page (9, 9, 13, 13) (U ''FOO'') 1
          fresh_state) = None"
    by (simp add: save_sigil_image_def patchy_fitz_page_def good_pixmap_def Let_def)
  have f: "saved_files fresh_state = []" "sigil_counter fresh_state = 0"
    by (simp_all add: fresh_state_def)
  show ?thesis
    using sigil_counter_and_filenames[where u = ascii_platform and fp = patchy_fitz_page
            and b = "(9, 9, 13, 13)" and h = "U ''FOO''" and p = 1 and st = fresh_state
            and k = 1 and k' = 1 and h' = "U ''FOO''" and p' = 1]
          p g n f
    by simp
qed

section \<open>The drawn-sigil search\<close>

lemma match_sigil_fold:
  "foldl (match_sigil env h e) (ms, evs, ws) sms =
     (ms @ List.map_filter (candidate_match env h e) sms,
      evs @ map (\<lambda>sm. OpenDbImage (image_path sm)) (filter (tried env) sms),
      ws @ map (\<lambda>sm. WarningDbImage (image_path sm))
             (filter (\<lambda>sm. tried env sm \<and> candidate_match env h e sm = None) sms))"
proof (induction sms arbitrary: ms evs ws)
  case Nil
  then show ?case by (simp add: List.map_filter_simps)
next
  case (Cons sm sms)
  show ?case
  proof (cases "tried env sm")
    case False
    then have "match_sigil env h e (ms, evs, ws) sm = (ms, evs, ws)"
      by (auto simp: match_sigil_def tried_def Let_def)
    then show ?thesis using Cons.IH[of ms evs ws] False
      by (simp add: List.map_filter_simps candidate_match_def)
  next
    case True
    show ?thesis
    proof (cases "candidate_match env h e sm")
      case None
      then have "match_sigil env h e (ms, evs, ws) sm
                   = (ms, evs @ [OpenDbImage (image_path sm)], ws @ [WarningDbImage (image_path sm)])"
        using True
        by (auto simp: match_sigil_def candidate_match_def tried_def Let_def split: option.splits)
      then show ?thesis
        using Cons.IH[of ms "evs @ [OpenDbImage (image_path sm)]" "ws @ [WarningDbImage (image_path sm)]"]
              True None
        by (simp add: List.map_filter_simps)
    next
      case (Some m)
      then have "match_sigil env h e (ms, evs, ws) sm
                   = (ms @ [m], evs @ [OpenDbImage (image_path sm)], ws)"
        using True
        by (auto simp: match_sigil_def candidate_match_def tried_def Let_def split: option.splits)
      then show ?thesis
        using Cons.IH[of "ms @ [m]" "evs @ [OpenDbImage (image_path sm)]" ws] True Some
        by (simp add: List.map_filter_simps)
    qed
  qed
qed

lemma match_entry_fold:
  "foldl (match_entry env h) (ms, evs, ws) data =
     (ms @ all_matches env h data,
      evs @ concat (map (\<lambda>e. map (\<lambda>sm. OpenDbImage (image_path sm))
                              (filter (tried env) (sigils_metadata e))) data),
      ws @ map WarningDbImage (failed_images env h data))"
proof (induction data arbitrary: ms evs ws)
  case Nil
  then show ?case by (simp add: all_matches_def failed_images_def)
next
  case (Cons e data)
  show ?case
    unfolding foldl_Cons match_entry_def[of env h "(ms, evs, ws)" e] match_sigil_fold Cons.IH
    by (simp add: all_matches_def failed_images_def comp_def)
qed

lemma search_unfold:
  "search_drawn_sigil_action env scanned img =
     (let data = dataset_in_use env scanned;
          evs0 = (if scanned = [] then [LoadData] else [])
      in if data = [] then \<lparr>result = ErrorNotLoaded, events = evs0, warnings = []\<rparr>
         else
           (case canvas_is_blank img of
              Inl e \<Rightarrow> \<lparr>result = Raised e, events = evs0, warnings = []\<rparr>
            | Inr True \<Rightarrow> \<lparr>result = EmptyCanvas, events = evs0, warnings = []\<rparr>
            | Inr False \<Rightarrow>
                (case phash_drawn env img of
                   None \<Rightarrow> \<lparr>result = HashingError, events = evs0 @ [HashDrawn], warnings = []\<rparr>
                 | Some h \<Rightarrow>
                     \<lparr>result = TopMatches (take 10 (sort_key distance (all_matches env h data))),
                      events = evs0 @ [HashDrawn] @
                        concat (map (\<lambda>e. map (\<lambda>sm. OpenDbImage (image_path sm))
                                (filter (tried env) (sigils_metadata e))) data),
                      warnings = map WarningDbImage (failed_images env h data)\<rparr>)))"
  by (simp add: search_drawn_sigil_action_def dataset_in_use_def Let_def match_entry_fold
           split: option.splits sum.splits bool.splits)

lemma count_list_replicate_same: "count_list (replicate n c) c = n"
  by (induction n) simp_all

lemma remdups_replicate_same: "n \<noteq> 0 \<Longrightarrow> remdups (replicate n c) = [c]"
  by (induction n) auto

lemma short_list_one_value: "length xs \<le> 1 \<Longrightarrow> a \<in> set xs \<Longrightarrow> b \<in> set xs \<Longrightarrow> a = b"
  by (cases xs; cases "tl xs") auto

lemma uniform_is_replicate: "img \<noteq> [] \<Longrightarrow> (\<And>px. px \<in> set img \<Longrightarrow> px = c) \<Longrightarrow> \<exists>n. img = replicate n c \<and> n \<noteq> 0"
proof -
  assume ne: "img \<noteq> []" and a: "\<And>px. px \<in> set img \<Longrightarrow> px = c"
  have "img = replicate (length img) c" using a by (intro replicate_eqI) auto
  moreover have "length img \<noteq> 0" using ne by simp
  ultimately show ?thesis by blast
qed

lemma getcolors_uniform: "remdups img = [c] \<Longrightarrow> count_list img c = length img \<Longrightarrow> getcolors 1 img = Some [(length img, c)]"
  by (simp add: getcolors_def Let_def) 

lemma getcolors_many: "\<not> length (remdups img) \<le> 1 \<Longrightarrow> getcolors 1 img = None"
  by (simp add: getcolors_def Let_def)


lemma getcolors_one:
  "getcolors 1 img = (if img = [] then Some []
                      else if list_all (\<lambda>px. px = hd img) img then Some [(length img, hd img)]
                      else None)"
proof (cases "img = []")
  case True
  then show ?thesis by (simp add: getcolors_def)
next
  case ne: False
  define c where "c = hd img"
  have cin: "c \<in> set img" using ne by (simp add: c_def)
  show ?thesis
  proof (cases "list_all (\<lambda>px. px = c) img")
    case True
    then have a: "\<And>px. px \<in> set img \<Longrightarrow> px = c" by (simp add: list_all_iff)
    from uniform_is_replicate[OF ne a] obtain n where i: "img = replicate n c" and n: "n \<noteq> 0"
      by blast
    have r: "remdups img = [c]"
      unfolding i by (rule remdups_replicate_same[OF n])
    have cnt: "count_list img c = length img"
      unfolding i by (simp add: count_list_replicate_same)
    have lhs: "getcolors 1 img = Some [(length img, c)]"
      by (rule getcolors_uniform[OF r cnt])
    show ?thesis unfolding lhs c_def[symmetric] using ne True by simp
  next
    case False
    then obtain px where px: "px \<in> set img" "px \<noteq> c" by (auto simp: list_all_iff)
    have m: "c \<in> set (remdups img)" "px \<in> set (remdups img)" using px cin by simp_all
    have "\<not> length (remdups img) \<le> 1"
    proof
      assume "length (remdups img) \<le> 1"
      from short_list_one_value[OF this m] px(2) show False by simp
    qed
    then have lhs: "getcolors 1 img = None" by (rule getcolors_many)
    show ?thesis unfolding lhs c_def[symmetric] using ne False by simp
  qed
qed

lemma replicate_uniform:
  "N \<noteq> 0 \<Longrightarrow> img = replicate N c
     \<Longrightarrow> img \<noteq> [] \<and> hd img = c \<and> list_all (\<lambda>px. px = hd img) img \<and> length img = N"
  by (cases N) (auto simp: list_all_iff)

text \<open>
  The colour lookup of line 654 raises whenever it is evaluated, so the test of the blank
  canvas has two outcomes only: it is false for an image of more than one colour (and
  for an image without pixels), and it raises for every image of one colour.
\<close>

lemma canvas_is_blank_cases:
  "canvas_is_blank img =
     (if img \<noteq> [] \<and> list_all (\<lambda>px. px = hd img) img
      then Inl (AttributeError (U ''Color'')) else Inr False)"
  unfolding canvas_is_blank_def getcolors_one
  by (simp add: Image_Color_getrgb_def)

lemma blank_canvas_colors:
  "getcolors 1 blank_canvas
     = Some [(DRAW_CANVAS_WIDTH * DRAW_CANVAS_HEIGHT, (255, 255, 255))]"
proof -
  have n0: "DRAW_CANVAS_WIDTH * DRAW_CANVAS_HEIGHT \<noteq> 0"
    by (simp add: DRAW_CANVAS_WIDTH_def DRAW_CANVAS_HEIGHT_def)
  from replicate_uniform[OF n0 blank_canvas_def]
  have f: "blank_canvas \<noteq> []" "hd blank_canvas = (255, 255, 255)"
    "list_all (\<lambda>px. px = hd blank_canvas) blank_canvas"
    "length blank_canvas = DRAW_CANVAS_WIDTH * DRAW_CANVAS_HEIGHT" by blast+
  show ?thesis
    unfolding getcolors_one using f by simp
qed

lemma blank_canvas_check: "canvas_is_blank blank_canvas = Inl (AttributeError (U ''Color''))"
  unfolding canvas_is_blank_def blank_canvas_colors
  by (simp add: Image_Color_getrgb_def)

lemma failed_images_tried:
  "p \<in> set (failed_images env h data) \<Longrightarrow> p \<noteq> [] \<and> path_exists env p"
  by (auto simp: failed_images_def tried_def)

lemmas search_run_defs =
  search_unfold dataset_in_use_def all_matches_def failed_images_def candidate_match_def
  tried_def hash_sub_def canvas_is_blank_def getcolors_def demo_env_def demo_entry_def
  demo_sigil_def black_dot_image_def List.map_filter_simps Let_def

lemma demo_run:
  "search_drawn_sigil_action demo_env [demo_entry] black_dot_image
   = \<lparr>result = TopMatches [\<lparr>distance = 1, sigil_meta_of = demo_sigil (U ''a.png''),
                             parent_entry = demo_entry\<rparr>],
      events = [HashDrawn, OpenDbImage (U ''a.png'')],
      warnings = []\<rparr>"
  by (simp add: search_run_defs U_def)

text \<open>
  C3 (as amended). When a dataset is available (in memory, or read from the output file),
  the drawing shows more than one colour and its hash can be computed, the search
  collects one match for each sigil of the dataset, in dataset order, whose image path is
  not empty, exists on disk and can be hashed to a hash of the query's shape; it sorts
  the matches by distance with a stable sort and returns the first ten. A sigil whose
  path is empty or missing on disk is skipped without any warning; a warning is logged
  exactly for the existing images that cannot be processed, and the search goes on. With
  no usable sigil the result is the empty list. With no dataset available the search
  reports that the data is not loaded.
\<close>

theorem similarity_search_ranking:
  assumes "dataset_in_use env scanned \<noteq> []" "getcolors 1 img = None"
    and "phash_drawn env img = Some h"
  shows "result (search_drawn_sigil_action env scanned img)
           = TopMatches (take 10 (sort_key distance (all_matches env h (dataset_in_use env scanned))))
   \<and> sorted (map distance (take 10 (sort_key distance (all_matches env h (dataset_in_use env scanned)))))
   \<and> length (take 10 (sort_key distance (all_matches env h (dataset_in_use env scanned)))) \<le> 10
   \<and> (\<forall>k. filter (\<lambda>m. distance m = k) (sort_key distance (all_matches env h (dataset_in_use env scanned)))
          = filter (\<lambda>m. distance m = k) (all_matches env h (dataset_in_use env scanned)))
   \<and> warnings (search_drawn_sigil_action env scanned img)
        = map WarningDbImage (failed_images env h (dataset_in_use env scanned))
   \<and> (\<forall>p \<in> set (failed_images env h (dataset_in_use env scanned)). p \<noteq> [] \<and> path_exists env p)
   \<and> (all_matches env h (dataset_in_use env scanned) = []
        \<longrightarrow> result (search_drawn_sigil_action env scanned img) = TopMatches [])
   \<and> (dataset_in_use env scanned' = []
        \<longrightarrow> result (search_drawn_sigil_action env scanned' img) = ErrorNotLoaded)"
proof -
  let ?ms = "all_matches env h (dataset_in_use env scanned)"
  have cb: "canvas_is_blank img = Inr False"
    using assms(2) by (simp add: canvas_is_blank_def)
  have r: "result (search_drawn_sigil_action env scanned img) = TopMatches (take 10 (sort_key distance ?ms))"
    and w: "warnings (search_drawn_sigil_action env scanned img)
        = map WarningDbImage (failed_images env h (dataset_in_use env scanned))"
    using assms(1,3) cb by (simp_all add: search_unfold Let_def)
  have s: "sorted (map distance (take 10 (sort_key distance ?ms)))"
    using sorted_sort_key[of distance ?ms] by (simp add: take_map[symmetric] sorted_wrt_take)
  have st: "\<forall>k. filter (\<lambda>m. distance m = k) (sort_key distance ?ms) = filter (\<lambda>m. distance m = k) ?ms"
    by (simp add: sort_key_stable)
  have f: "\<forall>p \<in> set (failed_images env h (dataset_in_use env scanned)). p \<noteq> [] \<and> path_exists env p"
    using failed_images_tried by blast
  have e: "?ms = [] \<longrightarrow> result (search_drawn_sigil_action env scanned img) = TopMatches []"
    using r by simp
  have n: "dataset_in_use env scanned' = []
        \<longrightarrow> result (search_drawn_sigil_action env scanned' img) = ErrorNotLoaded"
    by (simp add: search_unfold Let_def)
  show ?thesis using r s st w f e n by simp
qed

theorem similarity_search_ranking_witness:
  "dataset_in_use demo_env [demo_entry] \<noteq> [] \<and> getcolors 1 black_dot_image = None
   \<and> phash_drawn demo_env black_dot_image = Some [True, False, True, False]
   \<and> result (search_drawn_sigil_action demo_env [demo_entry] black_dot_image)
       = TopMatches [\<lparr>distance = 1, sigil_meta_of = demo_sigil (U ''a.png''),
                      parent_entry = demo_entry\<rparr>]
   \<and> take 10 (sort_key distance (all_matches demo_env [True, False, True, False]
                 (dataset_in_use demo_env [demo_entry])))
       = [\<lparr>distance = 1, sigil_meta_of = demo_sigil (U ''a.png''), parent_entry = demo_entry\<rparr>]"
proof -
  have a: "dataset_in_use demo_env [demo_entry] \<noteq> []"
    by (simp add: dataset_in_use_def)
  have b: "getcolors 1 black_dot_image = None"
    by (simp add: getcolors_def black_dot_image_def Let_def)
  have c: "phash_drawn demo_env black_dot_image = Some [True, False, True, False]"
    by (simp add: demo_env_def)
  from similarity_search_ranking[OF a b c]
  have "result (search_drawn_sigil_action demo_env [demo_entry] black_dot_image)
           = TopMatches (take 10 (sort_key distance (all_matches demo_env [True, False, True, False]
               (dataset_in_use demo_env [demo_entry]))))" by blast
  then show ?thesis using a b c by (simp add: demo_run)
qed

theorem missing_image_no_warning_counterexample:
  "image_path (demo_sigil (U ''gone.png'')) = U ''gone.png''
   \<and> \<not> path_exists demo_env (U ''gone.png'')
   \<and> sigils_metadata demo_entry = [demo_sigil (U ''gone.png''), demo_sigil (U ''a.png'')]
   \<and> warnings (search_drawn_sigil_action demo_env [demo_entry] black_dot_image) = []
   \<and> result (search_drawn_sigil_action demo_env [demo_entry] black_dot_image)
       = TopMatches [\<lparr>distance = 1, sigil_meta_of = demo_sigil (U ''a.png''),
                      parent_entry = demo_entry\<rparr>]"
  by (simp add: demo_run) (simp add: demo_sigil_def demo_env_def demo_entry_def U_def)

text \<open>
  C4. The blank canvas is the image all of whose 250 by 250 pixels are white, the
  background colour. It has one colour, so the test of lines 654 and 655 goes on to the
  colour lookup \<open>Image.Color.getrgb\<close>, which raises \<open>AttributeError\<close>: with a dataset
  available, in memory or read from the output file, the search of a blank canvas ends
  with that exception, before any hash is computed and before any image of the corpus is
  opened, and gives no message. For no drawing does the search end with the
  \<open>EmptyCanvas\<close> message.
\<close>

theorem blank_canvas_raises:
  "getcolors 1 blank_canvas = Some [(DRAW_CANVAS_WIDTH * DRAW_CANVAS_HEIGHT, (255, 255, 255))]
   \<and> canvas_is_blank blank_canvas = Inl (AttributeError (U ''Color''))
   \<and> search_drawn_sigil_action env (e # es) blank_canvas
       = \<lparr>result = Raised (AttributeError (U ''Color'')), events = [], warnings = []\<rparr>
   \<and> search_drawn_sigil_action (env\<lparr>load_json := Some (e # es)\<rparr>) [] blank_canvas
       = \<lparr>result = Raised (AttributeError (U ''Color'')), events = [LoadData], warnings = []\<rparr>
   \<and> result (search_drawn_sigil_action env scanned img) \<noteq> EmptyCanvas"
proof -
  have a: "search_drawn_sigil_action env (e # es) blank_canvas
       = \<lparr>result = Raised (AttributeError (U ''Color'')), events = [], warnings = []\<rparr>"
    by (simp add: search_unfold dataset_in_use_def blank_canvas_check)
  have b: "search_drawn_sigil_action (env\<lparr>load_json := Some (e # es)\<rparr>) [] blank_canvas
       = \<lparr>result = Raised (AttributeError (U ''Color'')), events = [LoadData], warnings = []\<rparr>"
    by (simp add: search_unfold dataset_in_use_def blank_canvas_check)
  have c: "result (search_drawn_sigil_action env scanned img) \<noteq> EmptyCanvas"
    by (simp add: search_unfold Let_def canvas_is_blank_cases split: option.splits)
  show ?thesis using blank_canvas_colors blank_canvas_check a b c by simp
qed

theorem blank_canvas_raises_witness:
  "result (search_drawn_sigil_action demo_env [demo_entry] blank_canvas)
     = Raised (AttributeError (U ''Color''))
   \<and> events (search_drawn_sigil_action demo_env [demo_entry] blank_canvas) = []
   \<and> warnings (search_drawn_sigil_action demo_env [demo_entry] blank_canvas) = []"
  using blank_canvas_raises[of demo_env demo_entry "[]"] by simp


end
